theory Spec2Isabelle
  imports Complex_Main "HOL-Library.Sublist" "HOL-Library.Char_ord" "HOL-Library.List_Lexorder"
begin

section \<open>Go strings as byte lists\<close>

text \<open>
  A Go \<^verbatim>\<open>string\<close> is a sequence of bytes; \<^typ>\<open>string\<close> (a list of 8-bit
  characters) models it byte for byte.  The functions of package \<^verbatim>\<open>strings\<close>
  and \<^verbatim>\<open>unicode\<close> that \<^verbatim>\<open>main.go\<close> calls are written out here over bytes;
  where Go decodes UTF-8 (white space, case folding) the multi-byte encodings are listed.
\<close>

definition is_digit :: "char \<Rightarrow> bool" where
  "is_digit c = (CHR ''0'' \<le> c \<and> c \<le> CHR ''9'')"

definition is_upper :: "char \<Rightarrow> bool" where
  "is_upper c = (CHR ''A'' \<le> c \<and> c \<le> CHR ''Z'')"

definition is_lower :: "char \<Rightarrow> bool" where
  "is_lower c = (CHR ''a'' \<le> c \<and> c \<le> CHR ''z'')"

text \<open>The two cases of an ASCII letter, as a table; every other byte is left alone.\<close>

definition ascii_lower :: "char \<Rightarrow> char" where
  "ascii_lower c =
     (case map_of (zip ''ABCDEFGHIJKLMNOPQRSTUVWXYZ'' ''abcdefghijklmnopqrstuvwxyz'') c of
        Some l \<Rightarrow> l
      | None \<Rightarrow> c)"

definition ascii_upper :: "char \<Rightarrow> char" where
  "ascii_upper c =
     (case map_of (zip ''abcdefghijklmnopqrstuvwxyz'' ''ABCDEFGHIJKLMNOPQRSTUVWXYZ'') c of
        Some u \<Rightarrow> u
      | None \<Rightarrow> c)"

text \<open>\<^verbatim>\<open>\s\<close> of Go's regexp package (RE2 syntax): tab, newline, form feed, carriage
  return and space.  The vertical tab is not in the class.\<close>

definition is_rx_space :: "char \<Rightarrow> bool" where
  "is_rx_space c = (c = CHR 0x09 \<or> c = CHR 0x0A \<or> c = CHR 0x0C \<or> c = CHR 0x0D \<or> c = CHR 0x20)"

text \<open>\<^verbatim>\<open>unicode.IsSpace\<close>, on the UTF-8 bytes at the head of a string: the number of
  bytes of the white-space rune that starts there, \<open>0\<close> when none does.  The runes are
  U+0009..U+000D, U+0020, U+0085, U+00A0, U+1680, U+2000..U+200A, U+2028, U+2029, U+202F,
  U+205F and U+3000.\<close>

fun space_len :: "string \<Rightarrow> nat" where
  "space_len [] = 0"
| "space_len (c # cs) =
     (if c = CHR 0x09 \<or> c = CHR 0x0A \<or> c = CHR 0x0B \<or> c = CHR 0x0C \<or> c = CHR 0x0D
         \<or> c = CHR 0x20 then 1
      else if c = CHR 0xC2 then
        (case cs of d # _ \<Rightarrow> if d = CHR 0x85 \<or> d = CHR 0xA0 then 2 else 0 | [] \<Rightarrow> 0)
      else if c = CHR 0xE1 then
        (case cs of d # e # _ \<Rightarrow> if d = CHR 0x9A \<and> e = CHR 0x80 then 3 else 0 | _ \<Rightarrow> 0)
      else if c = CHR 0xE2 then
        (case cs of d # e # _ \<Rightarrow>
           if d = CHR 0x80 \<and> (CHR 0x80 \<le> e \<and> e \<le> CHR 0x8A \<or> e = CHR 0xA8
                \<or> e = CHR 0xA9 \<or> e = CHR 0xAF) then 3
           else if d = CHR 0x81 \<and> e = CHR 0x9F then 3 else 0
         | _ \<Rightarrow> 0)
      else if c = CHR 0xE3 then
        (case cs of d # e # _ \<Rightarrow> if d = CHR 0x80 \<and> e = CHR 0x80 then 3 else 0 | _ \<Rightarrow> 0)
      else 0)"

text \<open>The same runes read from the end of a string (\<^verbatim>\<open>utf8.DecodeLastRuneInString\<close>),
  given the reversed bytes.\<close>

fun space_len_rev :: "string \<Rightarrow> nat" where
  "space_len_rev [] = 0"
| "space_len_rev (c # cs) =
     (if space_len [c] = 1 then 1
      else case cs of
        d # ds \<Rightarrow>
          if space_len [d, c] = 2 then 2
          else (case ds of e # _ \<Rightarrow> if space_len [e, d, c] = 3 then 3 else 0 | [] \<Rightarrow> 0)
      | [] \<Rightarrow> 0)"

lemma space_len_pos_length: "0 < space_len s \<Longrightarrow> length s - space_len s < length s"
  by (cases s) auto

lemma space_len_rev_pos_length:
  "0 < space_len_rev r \<Longrightarrow> length r - space_len_rev r < length r"
  by (cases r) auto

function TrimLeftSpace :: "string \<Rightarrow> string" where
  "TrimLeftSpace s = (if space_len s = 0 then s else TrimLeftSpace (drop (space_len s) s))"
  by pat_completeness auto
termination
  by (relation "measure length") (auto simp: space_len_pos_length)

declare TrimLeftSpace.simps [simp del]

function trim_rev :: "string \<Rightarrow> string" where
  "trim_rev r = (if space_len_rev r = 0 then r else trim_rev (drop (space_len_rev r) r))"
  by pat_completeness auto
termination
  by (relation "measure length") (auto simp: space_len_rev_pos_length)

declare trim_rev.simps [simp del]

definition TrimRightSpace :: "string \<Rightarrow> string" where
  "TrimRightSpace s = rev (trim_rev (rev s))"

text \<open>\<^verbatim>\<open>strings.TrimSpace\<close>: leading white space is removed first, then trailing.\<close>

definition TrimSpace :: "string \<Rightarrow> string" where
  "TrimSpace s = TrimRightSpace (TrimLeftSpace s)"

text \<open>\<^verbatim>\<open>strings.Index\<close>: the offset of the first occurrence of \<open>sub\<close>.\<close>

fun Index :: "string \<Rightarrow> string \<Rightarrow> nat option" where
  "Index [] sub = (if sub = [] then Some 0 else None)"
| "Index (c # cs) sub =
     (if prefix sub (c # cs) then Some 0 else map_option Suc (Index cs sub))"

definition Contains :: "string \<Rightarrow> string \<Rightarrow> bool" where
  "Contains s sub = (Index s sub \<noteq> None)"

text \<open>\<^verbatim>\<open>strings.ReplaceAll\<close> for a non-empty \<open>old\<close>, which is what every call in
  \<^verbatim>\<open>main.go\<close> passes: occurrences are replaced from left to right without
  overlap.  (Go's insertion between runes for an empty \<open>old\<close> is not needed and not
  modelled: the text is returned as it is.)\<close>

function ReplaceAll :: "string \<Rightarrow> string \<Rightarrow> string \<Rightarrow> string" where
  "ReplaceAll s old new =
     (if s = [] \<or> old = [] then s
      else if prefix old s then new @ ReplaceAll (drop (length old) s) old new
      else hd s # ReplaceAll (tl s) old new)"
  by pat_completeness auto
termination
  by (relation "measure (\<lambda>(s, old, new). length s)") (auto simp: neq_Nil_conv)

declare ReplaceAll.simps [simp del]

text \<open>\<^verbatim>\<open>strings.Split(s, "\n")\<close> and \<^verbatim>\<open>strings.Join\<close>.\<close>

fun split_lines :: "string \<Rightarrow> string list" where
  "split_lines [] = [[]]"
| "split_lines (c # cs) =
     (if c = CHR 0x0A then [] # split_lines cs
      else (case split_lines cs of l # ls \<Rightarrow> (c # l) # ls | [] \<Rightarrow> [[c]]))"

fun Join :: "string list \<Rightarrow> string \<Rightarrow> string" where
  "Join [] sep = []"
| "Join [x] sep = x"
| "Join (x # y # ys) sep = x @ sep @ Join (y # ys) sep"

text \<open>\<^verbatim>\<open>strings.Fields\<close>: the maximal runs of bytes between white-space runes;
  \<open>cur\<close> is the field being read.\<close>

function fields_from :: "string \<Rightarrow> string \<Rightarrow> string list" where
  "fields_from cur s =
     (if s = [] then (if cur = [] then [] else [cur])
      else if space_len s = 0 then fields_from (cur @ [hd s]) (tl s)
      else (if cur = [] then [] else [cur]) @ fields_from [] (drop (space_len s) s))"
  by pat_completeness auto
termination
  by (relation "measure (\<lambda>(cur, s). length s)") (auto simp: space_len_pos_length)

declare fields_from.simps [simp del]

definition Fields :: "string \<Rightarrow> string list" where
  "Fields s = fields_from [] s"

section \<open>Comment stripping and white-space normalisation\<close>

text \<open>\<^verbatim>\<open>stripComments\<close> (main.go, "Misc"): the loop over the index \<open>i\<close> is a recursion on
  the rest of the text \<open>s[i:]\<close>.  An unterminated \<^verbatim>\<open>/*\<close> or a \<^verbatim>\<open>--\<close> without a
  following newline ends the loop (\<^verbatim>\<open>break\<close>) and drops the rest.\<close>

function stripComments :: "string \<Rightarrow> string" where
  "stripComments s =
     (if s = [] then []
      else if prefix ''/*'' s then
        (case Index (drop 2 s) ''*/'' of
           None \<Rightarrow> []
         | Some j \<Rightarrow> stripComments (drop (2 + j + 2) s))
      else if prefix ''--'' s then
        (case Index s [CHR 0x0A] of
           None \<Rightarrow> []
         | Some j \<Rightarrow> stripComments (drop (j + 1) s))
      else hd s # stripComments (tl s))"
  by pat_completeness auto
termination
  by (relation "measure length") (auto simp: neq_Nil_conv)

declare stripComments.simps [simp del]

text \<open>The second loop of \<^verbatim>\<open>normalizeWhitespace\<close>: a blank line is skipped when the
  line kept before it is blank too.  \<open>buf\<close> is the slice built so far.\<close>

fun squeeze_blank :: "string list \<Rightarrow> string list \<Rightarrow> string list" where
  "squeeze_blank buf [] = buf"
| "squeeze_blank buf (line # rest) =
     (if line = [] \<and> buf \<noteq> [] \<and> last buf = [] then squeeze_blank buf rest
      else squeeze_blank (buf @ [line]) rest)"

definition normalizeWhitespace :: "string \<Rightarrow> string" where
  "normalizeWhitespace s =
     TrimSpace (Join (squeeze_blank [] (map (\<lambda>l. Join (Fields l) '' '') (split_lines s)))
                     [CHR 0x0A])"

text \<open>\<^verbatim>\<open>reSpace.ReplaceAllString(s, " ")\<close> with \<^verbatim>\<open>reSpace = \s+\<close>: every maximal run of
  \<^verbatim>\<open>\s\<close> bytes becomes one space.\<close>

function collapse_space :: "string \<Rightarrow> string" where
  "collapse_space s =
     (if s = [] then []
      else if is_rx_space (hd s) then CHR 0x20 # collapse_space (dropWhile is_rx_space s)
      else hd s # collapse_space (tl s))"
  by pat_completeness auto
termination
  by (relation "measure length") (auto simp: neq_Nil_conv length_dropWhile_le less_Suc_eq_le)

declare collapse_space.simps [simp del]

definition normalizeForCompare :: "string \<Rightarrow> string" where
  "normalizeForCompare s0 =
     (let s = stripComments s0;
          s = collapse_space s;
          s = ReplaceAll s ''( '' ''('';
          s = ReplaceAll s '' )'' '')'';
          s = ReplaceAll s '' ,'' '','';
          s = ReplaceAll s '' ;'' '';''
      in TrimSpace s)"

definition equalSQL :: "string \<Rightarrow> string \<Rightarrow> bool" where
  "equalSQL a b = (normalizeForCompare a = normalizeForCompare b)"

text \<open>The vocabulary for the shape of a normal form.\<close>

fun adj_all :: "(char \<Rightarrow> char \<Rightarrow> bool) \<Rightarrow> string \<Rightarrow> bool" where
  "adj_all Q (x # y # r) = (Q x y \<and> adj_all Q (y # r))"
| "adj_all Q _ = True"

text \<open>\<open>adj_all Q s\<close>: every two neighbours in \<open>s\<close> satisfy \<open>Q\<close>.  A text has
  \<open>only_plain_space\<close> when the space is its only \<^verbatim>\<open>\s\<close> byte; \<open>norm_adj\<close> excludes the
  pairs the four replacements of \<^verbatim>\<open>normalizeForCompare\<close> delete, and \<open>replacements\<close> names
  those four calls.\<close>

definition only_plain_space :: "string \<Rightarrow> bool" where
  "only_plain_space s = (\<forall>c \<in> set s. is_rx_space c \<longrightarrow> c = CHR 0x20)"

definition no_double_space :: "char \<Rightarrow> char \<Rightarrow> bool" where
  "no_double_space x y = (\<not> (x = CHR 0x20 \<and> y = CHR 0x20))"

definition norm_adj :: "char \<Rightarrow> char \<Rightarrow> bool" where
  "norm_adj x y =
     (no_double_space x y \<and> \<not> (x = CHR ''('' \<and> y = CHR 0x20)
      \<and> \<not> (x = CHR 0x20 \<and> y = CHR '')'') \<and> \<not> (x = CHR 0x20 \<and> y = CHR '','')
      \<and> \<not> (x = CHR 0x20 \<and> y = CHR '';''))"

definition replacements :: "string \<Rightarrow> string" where
  "replacements s =
     ReplaceAll (ReplaceAll (ReplaceAll (ReplaceAll s ''( '' ''('') '' )'' '')'') '' ,'' '','')
       '' ;'' '';''"


section \<open>Numbers: the parts of strconv and fmt that the program calls\<close>

text \<open>
  The program reads and prints numbers through Go's standard library
  (\<^verbatim>\<open>strconv.ParseInt\<close>, \<^verbatim>\<open>strconv.ParseFloat\<close>, \<^verbatim>\<open>strconv.FormatInt\<close>,
  \<^verbatim>\<open>strconv.FormatFloat(f, 'f', -1, 64)\<close>, \<^verbatim>\<open>fmt.Sprintf("%v", x)\<close>).  These are not
  code of the repository; they are modelled from their documented behaviour.  A finite
  \<^verbatim>\<open>float64\<close> is a sign and an exact rational magnitude, so that \<open>-0\<close> is a value;
  parsing rounds the exact value of the literal to the nearest double, ties to even, and
  printing with precision \<open>-1\<close> yields the shortest decimal that reads back as the same
  double.
\<close>

datatype float64 = Finite bool rat | Infinity bool | NaN

definition pow_int :: "rat \<Rightarrow> int \<Rightarrow> rat" where
  "pow_int b e = (if 0 \<le> e then b ^ nat e else 1 / b ^ nat (- e))"

function count_digits :: "int \<Rightarrow> int \<Rightarrow> nat" where
  "count_digits b n = (if n \<le> 0 \<or> b < 2 then 0 else Suc (count_digits b (n div b)))"
  by pat_completeness auto
termination
  by (relation "measure (\<lambda>(b, n). nat n)") (auto intro: int_div_less_self)

declare count_digits.simps [simp del]

text \<open>\<open>\<lfloor>log\<^sub>b q\<rfloor>\<close> for a positive rational \<open>q\<close>.\<close>

definition floor_log :: "int \<Rightarrow> rat \<Rightarrow> int" where
  "floor_log b q =
     (let (p, d) = quotient_of q;
          k = int (count_digits b p) - int (count_digits b d)
      in if pow_int (of_int b) k \<le> q then k else k - 1)"

definition round_half_even :: "rat \<Rightarrow> int" where
  "round_half_even x =
     (let f = \<lfloor>x\<rfloor>; r = x - of_int f
      in if r < 1 / 2 then f else if 1 / 2 < r then f + 1 else if even f then f else f + 1)"

text \<open>The nearest double to a non-negative rational: 53 bits of mantissa, exponents down
  to \<open>2\<^sup>-\<^sup>1\<^sup>0\<^sup>7\<^sup>4\<close> (subnormals); \<open>None\<close> when the rounded value is out of range, that is,
  \<open>2\<^sup>1\<^sup>0\<^sup>2\<^sup>4\<close> or more.\<close>

definition round_f64 :: "rat \<Rightarrow> rat option" where
  "round_f64 q =
     (if q \<le> 0 then Some 0
      else let e = max (floor_log 2 q - 52) (- 1074);
               r = of_int (round_half_even (q / pow_int 2 e)) * pow_int 2 e
           in if 1024 \<le> floor_log 2 r then None else Some r)"

definition digit_val :: "char \<Rightarrow> int" where
  "digit_val c = of_char c - 48"

definition hex_letter :: "char \<Rightarrow> bool" where
  "hex_letter c = (CHR ''a'' \<le> ascii_lower c \<and> ascii_lower c \<le> CHR ''f'')"

subsection \<open>strconv.ParseInt(s, 10, 64)\<close>

definition ParseInt :: "string \<Rightarrow> int option" where
  "ParseInt s =
     (if s = [] then None
      else let neg = (hd s = CHR ''-'');
               ds = (if hd s = CHR ''+'' \<or> hd s = CHR ''-'' then tl s else s)
           in if ds = [] \<or> \<not> list_all is_digit ds then None
              else let un = foldl (\<lambda>n c. n * 10 + digit_val c) 0 ds
                   in if \<not> neg \<and> 2 ^ 63 \<le> un then None
                      else if neg \<and> 2 ^ 63 < un then None
                      else Some (if neg then - un else un))"

subsection \<open>strconv.ParseFloat(s, 64)\<close>

record scan =
  sawdot :: bool
  sawdigits :: bool
  nd :: int
  dp :: int
  mant :: int
  underscores :: bool

text \<open>The digit loop of \<^verbatim>\<open>readFloat\<close>.  The mantissa is kept exact here, where Go keeps
  19 digits and a truncation flag for the correctly rounding slow path.\<close>

fun read_mantissa :: "bool \<Rightarrow> scan \<Rightarrow> string \<Rightarrow> scan \<times> string" where
  "read_mantissa hex st [] = (st, [])"
| "read_mantissa hex st (c # cs) =
     (if c = CHR ''_'' then read_mantissa hex (st\<lparr>underscores := True\<rparr>) cs
      else if c = CHR ''.'' then
        (if sawdot st then (st, c # cs)
         else read_mantissa hex (st\<lparr>sawdot := True, dp := nd st\<rparr>) cs)
      else if is_digit c then
        (if c = CHR ''0'' \<and> nd st = 0
         then read_mantissa hex (st\<lparr>sawdigits := True, dp := dp st - 1\<rparr>) cs
         else read_mantissa hex
                (st\<lparr>sawdigits := True, nd := nd st + 1,
                    mant := mant st * (if hex then 16 else 10) + digit_val c\<rparr>) cs)
      else if hex \<and> hex_letter c then
        read_mantissa hex
          (st\<lparr>sawdigits := True, nd := nd st + 1,
              mant := mant st * 16 + (of_char (ascii_lower c) - 97 + 10)\<rparr>) cs
      else (st, c # cs))"

text \<open>The exponent loop: digits and underscores; the value stops growing at 10000.\<close>

fun read_exponent :: "int \<Rightarrow> bool \<Rightarrow> string \<Rightarrow> int \<times> bool \<times> string" where
  "read_exponent e u [] = (e, u, [])"
| "read_exponent e u (c # cs) =
     (if c = CHR ''_'' then read_exponent e True cs
      else if is_digit c
      then read_exponent (if e < 10000 then e * 10 + digit_val c else e) u cs
      else (e, u, c # cs))"

text \<open>\<^verbatim>\<open>underscoreOK\<close>: an underscore must stand between digits, or between the base
  prefix and a digit.  \<open>saw\<close> is the last character class seen, as in the source:
  \<open>^\<close>, \<open>0\<close>, \<open>_\<close> or \<open>!\<close>.\<close>

fun underscore_loop :: "bool \<Rightarrow> char \<Rightarrow> string \<Rightarrow> bool" where
  "underscore_loop hex saw [] = (saw \<noteq> CHR ''_'')"
| "underscore_loop hex saw (c # cs) =
     (if is_digit c \<or> hex \<and> hex_letter c then underscore_loop hex (CHR ''0'') cs
      else if c = CHR ''_''
      then (if saw \<noteq> CHR ''0'' then False else underscore_loop hex (CHR ''_'') cs)
      else if saw = CHR ''_'' then False
      else underscore_loop hex (CHR ''!'') cs)"

definition underscoreOK :: "string \<Rightarrow> bool" where
  "underscoreOK s0 =
     (let s = (if s0 \<noteq> [] \<and> (hd s0 = CHR ''-'' \<or> hd s0 = CHR ''+'') then tl s0 else s0)
      in case s of
           a # b # rest \<Rightarrow>
             if a = CHR ''0'' \<and> (ascii_lower b = CHR ''b'' \<or> ascii_lower b = CHR ''o''
                                  \<or> ascii_lower b = CHR ''x'')
             then underscore_loop (ascii_lower b = CHR ''x'') (CHR ''0'') rest
             else underscore_loop False (CHR ''^'') s
         | _ \<Rightarrow> underscore_loop False (CHR ''^'') s)"

text \<open>\<^verbatim>\<open>special\<close>: the names of the infinities (with an optional sign) and of NaN
  (without), compared ignoring ASCII case.\<close>

definition special :: "string \<Rightarrow> float64 option" where
  "special s =
     (let signed = (s \<noteq> [] \<and> (hd s = CHR ''+'' \<or> hd s = CHR ''-''));
          body = map ascii_lower (if signed then tl s else s)
      in if body = ''inf'' \<or> body = ''infinity'' then Some (Infinity (hd s = CHR ''-''))
         else if \<not> signed \<and> body = ''nan'' then Some NaN
         else None)"

text \<open>\<^verbatim>\<open>readFloat\<close> and the conversion: the exact value of the literal, rounded.  Every
  error of Go's function (syntax, or a value out of range) is \<open>None\<close>.\<close>

definition ParseFloat :: "string \<Rightarrow> float64 option" where
  "ParseFloat s =
     (case special s of
        Some f \<Rightarrow> Some f
      | None \<Rightarrow>
          if s = [] then None
          else
            let neg = (hd s = CHR ''-'');
                s1 = (if hd s = CHR ''+'' \<or> hd s = CHR ''-'' then tl s else s);
                hex = (case s1 of a # b # _ # _ \<Rightarrow> a = CHR ''0'' \<and> ascii_lower b = CHR ''x''
                       | _ \<Rightarrow> False);
                s2 = (if hex then drop 2 s1 else s1);
                (st, s3) = read_mantissa hex
                  \<lparr>sawdot = False, sawdigits = False, nd = 0, dp = 0, mant = 0,
                   underscores = False\<rparr> s2;
                dp1 = (if sawdot st then dp st else nd st);
                expChar = (if hex then CHR ''p'' else CHR ''e'')
            in if \<not> sawdigits st then None
               else if s3 \<noteq> [] \<and> ascii_lower (hd s3) = expChar then
                 (let s4 = tl s3;
                      esign = (if s4 \<noteq> [] \<and> hd s4 = CHR ''-'' then - 1 else (1::int));
                      s5 = (if s4 \<noteq> [] \<and> (hd s4 = CHR ''+'' \<or> hd s4 = CHR ''-'')
                            then tl s4 else s4)
                  in if s5 = [] \<or> \<not> is_digit (hd s5) then None
                     else let (e, u, s6) = read_exponent 0 (underscores st) s5
                          in if s6 \<noteq> [] \<or> (u \<and> \<not> underscoreOK s) then None
                             else map_option (Finite neg)
                                    (round_f64
                                      (if hex
                                       then of_int (mant st)
                                            * pow_int 2 (4 * dp1 + e * esign - 4 * nd st)
                                       else of_int (mant st)
                                            * pow_int 10 (dp1 + e * esign - nd st))))
               else if hex then None
               else if s3 \<noteq> [] \<or> (underscores st \<and> \<not> underscoreOK s) then None
               else map_option (Finite neg)
                      (round_f64 (of_int (mant st) * pow_int 10 (dp1 - nd st))))"

subsection \<open>Printing\<close>

function dec_digits :: "int \<Rightarrow> string" where
  "dec_digits n =
     (if n < 10 then [char_of (48 + n)] else dec_digits (n div 10) @ [char_of (48 + n mod 10)])"
  by pat_completeness auto
termination
  by (relation "measure nat") (auto intro: int_div_less_self)

declare dec_digits.simps [simp del]

text \<open>\<^verbatim>\<open>strconv.FormatInt(i, 10)\<close>, which is also how \<^verbatim>\<open>%v\<close> prints an integer.\<close>

definition FormatInt :: "int \<Rightarrow> string" where
  "FormatInt i = (if i < 0 then CHR ''-'' # dec_digits (- i) else dec_digits i)"

text \<open>The shortest digits: for \<open>n = 1, 2, \<dots>\<close> the two \<open>n\<close>-digit decimals next to \<open>q\<close>
  are tried; the first that reads back as \<open>q\<close> wins, the nearer one if both do.  The
  result \<open>(d, k)\<close> stands for \<open>d \<times> 10\<^sup>k\<close>.\<close>

definition reads_back :: "rat \<Rightarrow> int \<Rightarrow> int \<Rightarrow> bool" where
  "reads_back q d k = (round_f64 (of_int d * pow_int 10 k) = Some q)"

fun shortest_from :: "nat \<Rightarrow> nat \<Rightarrow> rat \<Rightarrow> int \<times> int" where
  "shortest_from fuel n q =
     (let k = floor_log 10 q - (int n - 1);
          lo = \<lfloor>q / pow_int 10 k\<rfloor>;
          hi = lo + 1;
          lo_nearer = (q - of_int lo * pow_int 10 k < of_int hi * pow_int 10 k - q
                       \<or> (q - of_int lo * pow_int 10 k = of_int hi * pow_int 10 k - q \<and> even lo))
      in if reads_back q lo k \<and> (lo_nearer \<or> \<not> reads_back q hi k) then (lo, k)
         else if reads_back q hi k then (hi, k)
         else (case fuel of 0 \<Rightarrow> (if lo_nearer then lo else hi, k)
               | Suc f \<Rightarrow> shortest_from f (n + 1) q))"

declare shortest_from.simps [simp del]

fun strip_zeros :: "nat \<Rightarrow> int \<Rightarrow> int \<Rightarrow> int \<times> int" where
  "strip_zeros fuel d k =
     (case fuel of 0 \<Rightarrow> (d, k)
      | Suc f \<Rightarrow> if d \<noteq> 0 \<and> d mod 10 = 0 then strip_zeros f (d div 10) (k + 1) else (d, k))"

declare strip_zeros.simps [simp del]

definition shortest :: "rat \<Rightarrow> int \<times> int" where
  "shortest q = (if q = 0 then (0, 0) else case shortest_from 16 1 q of (d, k) \<Rightarrow> strip_zeros 20 d k)"

text \<open>The layout \<^verbatim>\<open>%f\<close> of the digits \<open>d \<times> 10\<^sup>k\<close>, without a sign.\<close>

definition layout_f :: "int \<Rightarrow> int \<Rightarrow> string" where
  "layout_f d k =
     (let ds = dec_digits d; n = int (length ds)
      in if d = 0 then ''0''
         else if 0 \<le> k then ds @ replicate (nat k) (CHR ''0'')
         else if - k < n then take (nat (n + k)) ds @ ''.'' @ drop (nat (n + k)) ds
         else ''0.'' @ replicate (nat (- k - n)) (CHR ''0'') @ ds)"

text \<open>The layout \<^verbatim>\<open>%e\<close>: one digit, the others after a point, and an exponent of at
  least two digits.\<close>

definition layout_e :: "int \<Rightarrow> int \<Rightarrow> string" where
  "layout_e d k =
     (let ds = dec_digits d; ex = k + int (length ds) - 1
      in hd ds # (if tl ds = [] then [] else CHR ''.'' # tl ds)
         @ ''e'' @ (if ex < 0 then ''-'' else ''+'')
         @ (if \<bar>ex\<bar> < 10 then ''0'' else []) @ dec_digits \<bar>ex\<bar>)"

text \<open>\<^verbatim>\<open>strconv.FormatFloat(f, 'f', -1, 64)\<close>.\<close>

definition FormatFloat :: "float64 \<Rightarrow> string" where
  "FormatFloat f =
     (case f of
        NaN \<Rightarrow> ''NaN''
      | Infinity neg \<Rightarrow> (if neg then ''-Inf'' else ''+Inf'')
      | Finite neg q \<Rightarrow>
          (if neg then ''-'' else []) @ (case shortest q of (d, k) \<Rightarrow> layout_f d k))"

text \<open>\<^verbatim>\<open>fmt.Sprintf("%v", f)\<close> for a \<^verbatim>\<open>float64\<close>: the format \<^verbatim>\<open>%g\<close> with the shortest
  digits, which switches to \<^verbatim>\<open>%e\<close> when the decimal exponent is below \<open>-4\<close> or at
  least \<open>6\<close>.\<close>

definition sprint_float :: "float64 \<Rightarrow> string" where
  "sprint_float f =
     (case f of
        NaN \<Rightarrow> ''NaN''
      | Infinity neg \<Rightarrow> (if neg then ''-Inf'' else ''+Inf'')
      | Finite neg q \<Rightarrow>
          (if neg then ''-'' else [])
          @ (case shortest q of
               (d, k) \<Rightarrow>
                 let ex = k + int (length (dec_digits d)) - 1
                 in if d \<noteq> 0 \<and> (ex < - 4 \<or> 6 \<le> ex) then layout_e d k else layout_f d k))"

text \<open>A printed number begins with a digit or a sign, or is \<^verbatim>\<open>NaN\<close>.\<close>

definition number_start :: "string \<Rightarrow> bool" where
  "number_start s = (s \<noteq> [] \<and> (is_digit (hd s) \<or> hd s = CHR ''-'' \<or> hd s = CHR ''+''
                                 \<or> hd s = CHR ''N''))"

text \<open>The conversions \<^verbatim>\<open>int64(f)\<close> and \<^verbatim>\<open>float64(i)\<close>.  Go leaves \<^verbatim>\<open>int64(f)\<close>
  to the implementation when \<open>f\<close> is not in range; the value taken here is the one of
  amd64, the smallest \<^verbatim>\<open>int64\<close>.\<close>

definition int64_of_float :: "float64 \<Rightarrow> int" where
  "int64_of_float f =
     (case f of
        Finite neg q \<Rightarrow>
          (let v = (if neg then - \<lfloor>q\<rfloor> else \<lfloor>q\<rfloor>)
           in if - (2 ^ 63) \<le> v \<and> v < 2 ^ 63 then v else - (2 ^ 63))
      | _ \<Rightarrow> - (2 ^ 63))"

definition float_of_int64 :: "int \<Rightarrow> float64" where
  "float_of_int64 i = Finite (i < 0) (case round_f64 (of_int \<bar>i\<bar>) of Some r \<Rightarrow> r | None \<Rightarrow> 0)"

text \<open>The comparison \<^verbatim>\<open>==\<close> of two doubles: NaN equals nothing, the two zeros are
  equal.\<close>

definition float_eq :: "float64 \<Rightarrow> float64 \<Rightarrow> bool" where
  "float_eq a b =
     (case (a, b) of
        (Finite n1 q1, Finite n2 q2) \<Rightarrow> q1 = q2 \<and> (n1 = n2 \<or> q1 = 0)
      | (Infinity n1, Infinity n2) \<Rightarrow> n1 = n2
      | _ \<Rightarrow> False)"


section \<open>Values\<close>

text \<open>
  Parameters are a Go \<^verbatim>\<open>map[string]any\<close>.  The constructors are the dynamic types that
  the type switches of \<^verbatim>\<open>main.go\<close> tell apart: \<^verbatim>\<open>nil\<close>, \<^verbatim>\<open>bool\<close>, \<^verbatim>\<open>string\<close>,
  \<^verbatim>\<open>json.Number\<close> (the text of a JSON number, which is what \<^verbatim>\<open>decodeParams\<close> produces
  with \<^verbatim>\<open>UseNumber\<close>), \<^verbatim>\<open>float64\<close> and the signed integer types (one constructor:
  the code treats them alike).  \<open>VOther\<close> is any other value, a JSON array or object; it
  carries the two texts that the standard library gives for it, \<^verbatim>\<open>fmt.Sprintf("%v", v)\<close>
  and \<^verbatim>\<open>json.Marshal(v)\<close>.
\<close>

datatype "value" =
    VNil
  | VBool bool
  | VString string
  | VNumber string
  | VFloat64 float64
  | VInt int
  | VOther string string

type_synonym params = "string \<rightharpoonup> value"

datatype error = SliceBoundsOutOfRange

definition bind_err :: "error + 'a \<Rightarrow> ('a \<Rightarrow> error + 'b) \<Rightarrow> error + 'b" where
  "bind_err x f = (case x of Inl e \<Rightarrow> Inl e | Inr a \<Rightarrow> f a)"

text \<open>\<^verbatim>\<open>params[k]\<close>: a missing key reads as \<^verbatim>\<open>nil\<close>.\<close>

definition lookup :: "params \<Rightarrow> string \<Rightarrow> value" where
  "lookup ps k = (case ps k of None \<Rightarrow> VNil | Some v \<Rightarrow> v)"

definition float_nonzero :: "float64 \<Rightarrow> bool" where
  "float_nonzero f = (case f of Finite _ q \<Rightarrow> q \<noteq> 0 | _ \<Rightarrow> True)"

fun isTruthy :: "value \<Rightarrow> bool" where
  "isTruthy VNil = False"
| "isTruthy (VBool t) = t"
| "isTruthy (VString t) = (TrimSpace t \<noteq> [])"
| "isTruthy (VNumber t) =
     (case ParseInt t of
        Some i \<Rightarrow> i \<noteq> 0
      | None \<Rightarrow> (case ParseFloat t of Some f \<Rightarrow> float_nonzero f | None \<Rightarrow> t \<noteq> ''0''))"
| "isTruthy (VFloat64 t) = float_nonzero t"
| "isTruthy (VInt t) = (FormatInt t \<noteq> ''0'')"
| "isTruthy (VOther _ _) = True"

text \<open>\<^verbatim>\<open>fmt.Sprintf("%v", v)\<close>.\<close>

fun sprint :: "value \<Rightarrow> string" where
  "sprint VNil = ''<nil>''"
| "sprint (VBool b) = (if b then ''true'' else ''false'')"
| "sprint (VString s) = s"
| "sprint (VNumber s) = s"
| "sprint (VFloat64 f) = sprint_float f"
| "sprint (VInt i) = FormatInt i"
| "sprint (VOther p _) = p"

section \<open>Case folding\<close>

text \<open>
  Go's \<^verbatim>\<open>(?i)\<close> and \<^verbatim>\<open>strings.EqualFold\<close> use Unicode simple case folding.  For an ASCII
  letter the runes that fold to it are its two cases, and besides these only U+017F
  (long s, bytes C5 BF) for \<open>s\<close> and U+212A (Kelvin sign, bytes E2 84 AA) for \<open>k\<close>.
  \<open>fold_len p s\<close> is the number of bytes of the rune at the head of \<open>s\<close> if it folds to
  the ASCII character \<open>p\<close>, and \<open>0\<close> otherwise.
\<close>

fun fold_len :: "char \<Rightarrow> string \<Rightarrow> nat" where
  "fold_len p [] = 0"
| "fold_len p (c # cs) =
     (if ascii_lower c = ascii_lower p then 1
      else if ascii_lower p = CHR ''s'' \<and> c = CHR 0xC5 \<and> prefix [CHR 0xBF] cs then 2
      else if ascii_lower p = CHR ''k'' \<and> c = CHR 0xE2 \<and> prefix [CHR 0x84, CHR 0xAA] cs then 3
      else 0)"

text \<open>A literal of a \<^verbatim>\<open>(?i)\<close> pattern at the head of \<open>s\<close>: the rest of \<open>s\<close> after it.\<close>

fun fold_prefix :: "string \<Rightarrow> string \<Rightarrow> string option" where
  "fold_prefix [] s = Some s"
| "fold_prefix (p # ps) s =
     (if fold_len p s = 0 then None else fold_prefix ps (drop (fold_len p s) s))"

definition EqualFold :: "string \<Rightarrow> string \<Rightarrow> bool" where
  "EqualFold s t = (fold_prefix t s = Some [])"

text \<open>A literal of a case-sensitive pattern at the head of \<open>s\<close>.\<close>

fun strip_prefix :: "string \<Rightarrow> string \<Rightarrow> string option" where
  "strip_prefix [] s = Some s"
| "strip_prefix (p # ps) [] = None"
| "strip_prefix (p # ps) (c # cs) = (if p = c then strip_prefix ps cs else None)"

section \<open>The condition evaluator\<close>

text \<open>The closure \<^verbatim>\<open>eq\<close> of \<^verbatim>\<open>evalCondFlexible\<close>; \<open>a\<close> is the parameter, \<open>b\<close> the
  parsed right-hand side (which is \<^verbatim>\<open>nil\<close>, a \<^verbatim>\<open>bool\<close>, a \<^verbatim>\<open>string\<close>, an
  \<^verbatim>\<open>int64\<close> or a \<^verbatim>\<open>float64\<close>).\<close>

fun eq :: "value \<Rightarrow> value \<Rightarrow> bool" where
  "eq (VNumber aa) b =
     (case (b, ParseInt aa, ParseFloat aa) of
        (VInt bb, Some i, _) \<Rightarrow> i = bb
      | (VFloat64 bb, _, Some f) \<Rightarrow> float_eq f bb
      | _ \<Rightarrow> aa = sprint b)"
| "eq (VString aa) b = (aa = sprint b)"
| "eq (VBool aa) b = (case b of VBool bb \<Rightarrow> aa = bb | _ \<Rightarrow> sprint (VBool aa) = sprint b)"
| "eq (VInt aa) b = (sprint (VInt aa) = sprint b)"
| "eq (VFloat64 aa) b = (sprint (VFloat64 aa) = sprint b)"
| "eq VNil b = (b = VNil)"
| "eq (VOther p j) b = (if b = VNil then False else p = sprint b)"

text \<open>The \<^verbatim>\<open>switch\<close> that parses the right-hand side.  \<open>Inr None\<close> is the
  \<^verbatim>\<open>return false\<close> of its default branch.  A right-hand side that is one quote character
  has the quote both as prefix and as suffix, and \<^verbatim>\<open>rhs[1 : len(rhs)-1]\<close> is then the
  slice \<^verbatim>\<open>rhs[1:0]\<close>, on which Go panics.\<close>

definition parse_rhs :: "string \<Rightarrow> error + value option" where
  "parse_rhs rhs =
     (if EqualFold rhs ''null'' then Inr (Some VNil)
      else if EqualFold rhs ''true'' then Inr (Some (VBool True))
      else if EqualFold rhs ''false'' then Inr (Some (VBool False))
      else if (prefix [CHR 0x27] rhs \<and> suffix [CHR 0x27] rhs)
              \<or> (prefix [CHR 0x22] rhs \<and> suffix [CHR 0x22] rhs) then
        (if length rhs < 2 then Inl SliceBoundsOutOfRange
         else Inr (Some (VString
                (ReplaceAll (ReplaceAll (butlast (tl rhs)) [CHR 0x27, CHR 0x27] [CHR 0x27])
                            [CHR 0x22, CHR 0x22] [CHR 0x22]))))
      else (case ParseInt rhs of
              Some i \<Rightarrow> Inr (Some (VInt i))
            | None \<Rightarrow> (case ParseFloat rhs of
                         Some f \<Rightarrow> Inr (Some (VFloat64 f))
                       | None \<Rightarrow> Inr None)))"

text \<open>\<^verbatim>\<open>strings.ContainsAny(c, " =!<>")\<close>.\<close>

definition has_operator_char :: "string \<Rightarrow> bool" where
  "has_operator_char c = (\<exists>x \<in> set c. x \<in> set '' =!<>'')"

text \<open>\<^verbatim>\<open>strings.SplitN(c, op, 2)\<close> when \<open>op\<close> occurs in \<open>c\<close>: the text before the first
  occurrence and the text after it.\<close>

definition split_at :: "string \<Rightarrow> string \<Rightarrow> string \<times> string" where
  "split_at c op = (case Index c op of
                      Some i \<Rightarrow> (take i c, drop (i + length op) c)
                    | None \<Rightarrow> (c, []))"

definition evalCondFlexible :: "string \<Rightarrow> params \<Rightarrow> error + bool" where
  "evalCondFlexible cond ps =
     (let c = TrimSpace cond
      in if \<not> has_operator_char c then Inr (isTruthy (lookup ps c))
         else if \<not> Contains c ''=='' \<and> \<not> Contains c ''!='' then Inr False
         else
           let op = (if Contains c ''=='' then ''=='' else ''!='');
               lhs = TrimSpace (fst (split_at c op));
               rhs = TrimSpace (snd (split_at c op))
           in bind_err (parse_rhs rhs)
                (\<lambda>r. case r of
                        None \<Rightarrow> Inr False
                      | Some rhsV \<Rightarrow>
                          Inr (if op = ''=='' then eq (lookup ps lhs) rhsV
                               else \<not> eq (lookup ps lhs) rhsV)))"


section \<open>The patterns of the renderer\<close>

text \<open>
  Each regular expression of \<^verbatim>\<open>main.go\<close> is written as a function that tries to match
  at the head of a text and returns the submatches and the text after the match, the match
  that Go's leftmost-first semantics prefers.  All the patterns begin with the ASCII bytes
  \<^verbatim>\<open>/*\<close> and end with an ASCII byte, and their classes take whole runes, so that
  matching byte by byte and rune by rune agree.  \<^verbatim>\<open>ReplaceAllStringFunc\<close> and
  \<^verbatim>\<open>FindAllStringSubmatch\<close> then walk the text from left to right: a match is taken at
  the first position that has one, and the walk goes on after it.  Each callback matches its
  argument once more with \<^verbatim>\<open>FindStringSubmatch\<close>; that finds the same submatches, since
  the patterns have no anchors, and the guards \<^verbatim>\<open>len(sm) < 3\<close> never fire.
\<close>

type_synonym 'g matcher = "string \<Rightarrow> ('g \<times> string) option"

text \<open>No pattern of the program matches the empty string; a match that consumes nothing
  counts as no match here.\<close>

function ReplaceAllStringFunc ::
  "'g matcher \<Rightarrow> ('g \<Rightarrow> error + string) \<Rightarrow> string \<Rightarrow> error + string" where
  "ReplaceAllStringFunc m f s =
     (case (case m s of Some gr \<Rightarrow> if length (snd gr) < length s then Some gr else None
            | None \<Rightarrow> None) of
        Some gr \<Rightarrow>
          bind_err (f (fst gr))
            (\<lambda>r. bind_err (ReplaceAllStringFunc m f (snd gr)) (\<lambda>t. Inr (r @ t)))
      | None \<Rightarrow>
          (if s = [] then Inr []
           else bind_err (ReplaceAllStringFunc m f (tl s)) (\<lambda>t. Inr (hd s # t))))"
  by pat_completeness auto
termination
  by (relation "measure (\<lambda>(m, f, s). length s)")
     (auto split: option.splits if_splits simp: neq_Nil_conv)

declare ReplaceAllStringFunc.simps [simp del]

function FindAllStringSubmatch :: "'g matcher \<Rightarrow> string \<Rightarrow> 'g list" where
  "FindAllStringSubmatch m s =
     (case (case m s of Some gr \<Rightarrow> if length (snd gr) < length s then Some gr else None
            | None \<Rightarrow> None) of
        Some gr \<Rightarrow> fst gr # FindAllStringSubmatch m (snd gr)
      | None \<Rightarrow> (if s = [] then [] else FindAllStringSubmatch m (tl s)))"
  by pat_completeness auto
termination
  by (relation "measure (\<lambda>(m, s). length s)")
     (auto split: option.splits if_splits simp: neq_Nil_conv)

declare FindAllStringSubmatch.simps [simp del]

text \<open>A lazy \<^verbatim>\<open>([\s\S]*?)\<close> followed by a closing pattern: the shortest body after
  which the closing pattern matches.\<close>

fun find_first :: "(string \<Rightarrow> string option) \<Rightarrow> string \<Rightarrow> (string \<times> string) option" where
  "find_first close [] = map_option (Pair []) (close [])"
| "find_first close (c # cs) =
     (case close (c # cs) of
        Some rest \<Rightarrow> Some ([], rest)
      | None \<Rightarrow> map_option (\<lambda>(body, rest). (c # body, rest)) (find_first close cs))"

text \<open>The class \<^verbatim>\<open>[A-Za-z0-9_]\<close> under \<^verbatim>\<open>(?i)\<close>: the number of bytes of the rune at
  the head, \<open>0\<close> if it is not in the class.  Folding adds U+017F and U+212A.\<close>

definition is_name_char :: "char \<Rightarrow> bool" where
  "is_name_char c = (is_digit c \<or> is_upper c \<or> is_lower c \<or> c = CHR ''_'')"

fun name_len :: "string \<Rightarrow> nat" where
  "name_len [] = 0"
| "name_len (c # cs) =
     (if is_name_char c then 1
      else if c = CHR 0xC5 \<and> prefix [CHR 0xBF] cs then 2
      else if c = CHR 0xE2 \<and> prefix [CHR 0x84, CHR 0xAA] cs then 3
      else 0)"

lemma name_len_pos_length: "0 < name_len s \<Longrightarrow> length s - name_len s < length s"
  by (cases s) auto

text \<open>A greedy \<^verbatim>\<open>([A-Za-z0-9_]+)\<close>: the longest run of runes of the class, and the rest.
  What follows it in the patterns is never in the class, so the longest run is the match.\<close>

function take_name :: "string \<Rightarrow> string \<times> string" where
  "take_name s =
     (if name_len s = 0 then ([], s)
      else (take (name_len s) s @ fst (take_name (drop (name_len s) s)),
            snd (take_name (drop (name_len s) s))))"
  by pat_completeness auto
termination
  by (relation "measure length") (auto simp: name_len_pos_length)

declare take_name.simps [simp del]

subsection \<open>reOptBlock\<close>

text \<open>\<^verbatim>\<open>(?i)/\*\?\s*([A-Za-z0-9_]+)\s*\?\*/([\s\S]*?)/\*\?\s*\*/\<close>\<close>

definition opt_head :: "string matcher" where
  "opt_head s =
     (case strip_prefix ''/*?'' s of
        None \<Rightarrow> None
      | Some s1 \<Rightarrow>
          (let (key, s2) = take_name (dropWhile is_rx_space s1)
           in if key = [] then None
              else map_option (Pair key) (strip_prefix ''?*/'' (dropWhile is_rx_space s2))))"

definition opt_close :: "string \<Rightarrow> string option" where
  "opt_close s =
     (case strip_prefix ''/*?'' s of
        None \<Rightarrow> None
      | Some s1 \<Rightarrow> strip_prefix ''*/'' (dropWhile is_rx_space s1))"

definition reOptBlock :: "(string \<times> string) matcher" where
  "reOptBlock s =
     (case opt_head s of
        None \<Rightarrow> None
      | Some (key, s1) \<Rightarrow>
          map_option (\<lambda>(body, rest). ((key, body), rest)) (find_first opt_close s1))"

subsection \<open>reIfBlock and reIfHead\<close>

text \<open>\<^verbatim>\<open>(?i)/\*IF\s+([^*]+?)\*/\<close>.  The condition runs up to the first \<^verbatim>\<open>*\<close>, which must
  begin \<^verbatim>\<open>*/\<close>.  The greedy \<^verbatim>\<open>\s+\<close> takes the whole run of white space, unless nothing
  but white space stands before the \<^verbatim>\<open>*\<close>: then it gives its last character back to the
  condition, which needs one.\<close>

definition reIfHead :: "string matcher" where
  "reIfHead s =
     (case fold_prefix ''/*IF'' s of
        None \<Rightarrow> None
      | Some s1 \<Rightarrow>
          (let ws = takeWhile is_rx_space s1;
               s2 = dropWhile is_rx_space s1;
               cond = takeWhile (\<lambda>c. c \<noteq> CHR ''*'') s2;
               s3 = dropWhile (\<lambda>c. c \<noteq> CHR ''*'') s2
           in if ws = [] then None
              else case strip_prefix ''*/'' s3 of
                     None \<Rightarrow> None
                   | Some s4 \<Rightarrow>
                       if cond \<noteq> [] then Some (cond, s4)
                       else if 2 \<le> length ws then Some ([last ws], s4)
                       else None))"

text \<open>\<^verbatim>\<open>/\*(?:END|ENDIF|FI)\*/\<close> under \<^verbatim>\<open>(?i)\<close>.\<close>

definition end_close :: "string \<Rightarrow> string option" where
  "end_close s =
     (case fold_prefix ''/*END*/'' s of
        Some r \<Rightarrow> Some r
      | None \<Rightarrow> (case fold_prefix ''/*ENDIF*/'' s of
                   Some r \<Rightarrow> Some r
                 | None \<Rightarrow> fold_prefix ''/*FI*/'' s))"

text \<open>\<^verbatim>\<open>(?i)/\*IF\s+([^*]+?)\*/([\s\S]*?)/\*(?:END|ENDIF|FI)\*/\<close>\<close>

definition reIfBlock :: "(string \<times> string) matcher" where
  "reIfBlock s =
     (case reIfHead s of
        None \<Rightarrow> None
      | Some (cond, s1) \<Rightarrow>
          map_option (\<lambda>(body, rest). ((cond, body), rest)) (find_first end_close s1))"

subsection \<open>reBeginEnd and reEmptyWhere\<close>

text \<open>\<^verbatim>\<open>(?i)/\*BEGIN\*/([\s\S]*?)/\*(?:END|ENDIF|FI)\*/\<close>\<close>

definition reBeginEnd :: "string matcher" where
  "reBeginEnd s =
     (case fold_prefix ''/*BEGIN*/'' s of
        None \<Rightarrow> None
      | Some s1 \<Rightarrow> find_first end_close s1)"

text \<open>\<^verbatim>\<open>^(?:WHERE)?\s*(?:AND|OR)?\s*\(?\s*\)?$\<close> as a test of the whole text
  (\<^verbatim>\<open>MatchString\<close>).  Each optional part must be taken when it is there, because nothing
  after it can match its first character.\<close>

definition reEmptyWhere :: "string \<Rightarrow> bool" where
  "reEmptyWhere s =
     (let s1 = (case strip_prefix ''WHERE'' s of Some r \<Rightarrow> r | None \<Rightarrow> s);
          s2 = dropWhile is_rx_space s1;
          s3 = (case strip_prefix ''AND'' s2 of
                  Some r \<Rightarrow> r
                | None \<Rightarrow> (case strip_prefix ''OR'' s2 of Some r \<Rightarrow> r | None \<Rightarrow> s2));
          s4 = dropWhile is_rx_space s3;
          s5 = (case strip_prefix ''('' s4 of Some r \<Rightarrow> r | None \<Rightarrow> s4);
          s6 = dropWhile is_rx_space s5;
          s7 = (case strip_prefix '')'' s6 of Some r \<Rightarrow> r | None \<Rightarrow> s6)
      in s7 = [])"

text \<open>\<^verbatim>\<open>strings.ToUpper\<close>.  ASCII letters are mapped; of the other runes only U+0131
  (bytes C4 B1) and U+017F (bytes C5 BF) have an ASCII upper case, \<open>I\<close> and \<open>S\<close>.  Go maps
  every other rune to a rune outside ASCII; such bytes are left as they are here, which
  \<^verbatim>\<open>reEmptyWhere\<close>, the only reader of the result, rejects either way.\<close>

fun ToUpper :: "string \<Rightarrow> string" where
  "ToUpper [] = []"
| "ToUpper [c] = [ascii_upper c]"
| "ToUpper (c # d # cs) =
     (if c = CHR 0xC4 \<and> d = CHR 0xB1 then CHR ''I'' # ToUpper cs
      else if c = CHR 0xC5 \<and> d = CHR 0xBF then CHR ''S'' # ToUpper cs
      else ascii_upper c # ToUpper (d # cs))"

subsection \<open>reParam\<close>

text \<open>\<^verbatim>\<open>(?i)/\*([a-zA-Z0-9_]+)\*/("([^"]*)"|'([^']*)'|[0-9.+-]+|true|false|null)\<close>.
  The alternatives of the default literal begin with different characters, so at most one
  of them can match.\<close>

definition is_num_char :: "char \<Rightarrow> bool" where
  "is_num_char c = (is_digit c \<or> c = CHR ''.'' \<or> c = CHR ''+'' \<or> c = CHR ''-'')"

definition quoted :: "char \<Rightarrow> string \<Rightarrow> (string \<times> string) option" where
  "quoted q cs =
     (let body = takeWhile (\<lambda>c. c \<noteq> q) cs; r = dropWhile (\<lambda>c. c \<noteq> q) cs
      in if r = [] then None else Some (q # body @ [q], tl r))"

definition keyword :: "string \<Rightarrow> string \<Rightarrow> (string \<times> string) option" where
  "keyword w s =
     map_option (\<lambda>r. (take (length s - length r) s, r)) (fold_prefix w s)"

definition default_literal :: "string matcher" where
  "default_literal s =
     (case s of
        [] \<Rightarrow> None
      | c # cs \<Rightarrow>
          if c = CHR 0x22 then quoted (CHR 0x22) cs
          else if c = CHR 0x27 then quoted (CHR 0x27) cs
          else if is_num_char c then Some (takeWhile is_num_char s, dropWhile is_num_char s)
          else (case keyword ''true'' s of
                  Some r \<Rightarrow> Some r
                | None \<Rightarrow> (case keyword ''false'' s of
                             Some r \<Rightarrow> Some r
                           | None \<Rightarrow> keyword ''null'' s)))"

definition reParam :: "(string \<times> string) matcher" where
  "reParam s =
     (case strip_prefix ''/*'' s of
        None \<Rightarrow> None
      | Some s1 \<Rightarrow>
          (let (name, s2) = take_name s1
           in if name = [] then None
              else case strip_prefix ''*/'' s2 of
                     None \<Rightarrow> None
                   | Some s3 \<Rightarrow>
                       map_option (\<lambda>(defWhole, rest). ((name, defWhole), rest))
                         (default_literal s3)))"

section \<open>The renderer\<close>

definition quoteByDefault :: "string \<Rightarrow> string \<Rightarrow> string" where
  "quoteByDefault defWhole s =
     (if prefix [CHR 0x22] defWhole
      then [CHR 0x22] @ ReplaceAll s [CHR 0x22] [CHR 0x22, CHR 0x22] @ [CHR 0x22]
      else [CHR 0x27] @ ReplaceAll s [CHR 0x27] [CHR 0x27, CHR 0x27] @ [CHR 0x27])"

text \<open>\<^verbatim>\<open>bytes.Trim(b, `"`)\<close>\<close>

definition trim_quotes :: "string \<Rightarrow> string" where
  "trim_quotes b =
     rev (dropWhile (\<lambda>c. c = CHR 0x22) (rev (dropWhile (\<lambda>c. c = CHR 0x22) b)))"

text \<open>\<^verbatim>\<open>json.Marshal\<close> of a double prints \<^verbatim>\<open>%e\<close> below \<open>10\<^sup>-\<^sup>6\<close> and from \<open>10\<^sup>2\<^sup>1\<close> on,
  with a one-digit exponent written without its zero, and fails on NaN and the infinities
  (\<^verbatim>\<open>toString\<close> drops the error and keeps the empty result).\<close>

definition json_float :: "float64 \<Rightarrow> string" where
  "json_float f =
     (case f of
        Finite neg q \<Rightarrow>
          (if neg then ''-'' else [])
          @ (case shortest q of
               (d, k) \<Rightarrow>
                 let ex = k + int (length (dec_digits d)) - 1
                 in if d \<noteq> 0 \<and> (ex < - 6 \<or> 21 \<le> ex)
                    then (let b = layout_e d k; n = length b
                          in if 4 \<le> n \<and> b ! (n - 4) = CHR ''e'' \<and> b ! (n - 2) = CHR ''0''
                             then take (n - 2) b @ [b ! (n - 1)] else b)
                    else layout_f d k)
      | _ \<Rightarrow> [])"

text \<open>\<^verbatim>\<open>toString\<close>: a string is itself, anything else its JSON text without the quotes at
  its ends.  A \<^verbatim>\<open>json.Number\<close> is taken to hold a JSON number, as the decoder ensures.\<close>

fun toString :: "value \<Rightarrow> string" where
  "toString (VString t) = t"
| "toString VNil = trim_quotes ''null''"
| "toString (VBool b) = trim_quotes (if b then ''true'' else ''false'')"
| "toString (VNumber n) = trim_quotes n"
| "toString (VFloat64 f) = trim_quotes (json_float f)"
| "toString (VInt i) = trim_quotes (FormatInt i)"
| "toString (VOther p j) = trim_quotes j"

text \<open>The callback of step 4 of \<^verbatim>\<open>renderNyanSQL\<close>, for a placeholder \<open>name\<close> with the
  default literal \<open>defWhole\<close>.\<close>

definition substitute :: "params \<Rightarrow> string \<Rightarrow> string \<Rightarrow> string" where
  "substitute ps name defWhole =
     (case ps name of
        None \<Rightarrow> defWhole
      | Some v \<Rightarrow>
          (case v of
             VNil \<Rightarrow> defWhole
           | VBool vv \<Rightarrow> (if vv then ''true'' else ''false'')
           | VFloat64 vv \<Rightarrow>
               (if float_eq (float_of_int64 (int64_of_float vv)) vv
                then FormatInt (int64_of_float vv)
                else FormatFloat vv)
           | VNumber vv \<Rightarrow>
               (case ParseInt vv of
                  Some i \<Rightarrow> FormatInt i
                | None \<Rightarrow> (case ParseFloat vv of Some f \<Rightarrow> FormatFloat f | None \<Rightarrow> vv))
           | VString vv \<Rightarrow> quoteByDefault defWhole vv
           | _ \<Rightarrow> quoteByDefault defWhole (toString v)))"

text \<open>The four rewriting steps of \<^verbatim>\<open>renderNyanSQL\<close>, named after the comments that
  number them in the source.\<close>

definition optional_blocks :: "params \<Rightarrow> string \<Rightarrow> error + string" where
  "optional_blocks ps =
     ReplaceAllStringFunc reOptBlock
       (\<lambda>(key, body). Inr (if isTruthy (lookup ps (TrimSpace key)) then body else []))"

definition if_blocks :: "params \<Rightarrow> string \<Rightarrow> error + string" where
  "if_blocks ps =
     ReplaceAllStringFunc reIfBlock
       (\<lambda>(cond, body).
          bind_err (evalCondFlexible (TrimSpace cond) ps)
            (\<lambda>b. Inr (if b then body else [])))"

definition prune :: "string \<Rightarrow> string" where
  "prune inner =
     (let only = normalizeWhitespace (stripComments inner);
          up = ToUpper (TrimSpace only)
      in if up = [] \<or> reEmptyWhere up then [] else inner)"

definition begin_end_blocks :: "string \<Rightarrow> error + string" where
  "begin_end_blocks = ReplaceAllStringFunc reBeginEnd (\<lambda>inner. Inr (prune inner))"

definition placeholders :: "params \<Rightarrow> string \<Rightarrow> error + string" where
  "placeholders ps =
     ReplaceAllStringFunc reParam (\<lambda>(name, defWhole). Inr (substitute ps name defWhole))"

text \<open>\<^verbatim>\<open>renderNyanSQL\<close>.  Its \<^verbatim>\<open>error\<close> result is always \<^verbatim>\<open>nil\<close>; \<open>Inl\<close> is a
  panic.\<close>

definition renderNyanSQL :: "string \<Rightarrow> params \<Rightarrow> error + string" where
  "renderNyanSQL tpl ps =
     bind_err (optional_blocks ps tpl)
       (\<lambda>t1. bind_err (if_blocks ps t1)
          (\<lambda>t2. bind_err (begin_end_blocks t2)
             (\<lambda>t3. bind_err (placeholders ps t3)
                (\<lambda>t4. Inr (TrimSpace (normalizeWhitespace t4))))))"


section \<open>Parameter inference\<close>

text \<open>The \<^verbatim>\<open>switch\<close> of \<^verbatim>\<open>extractParamDefaults\<close> on one default literal.
  \<^verbatim>\<open>strings.ToLower\<close> is applied to a literal that \<^verbatim>\<open>reParam\<close> matched; the
  lower-cased text \<open>low\<close> is only read when the literal is not quoted, and then its bytes
  are ASCII or those of U+017F, which is its own lower case.\<close>

definition decode_default :: "string \<Rightarrow> error + value" where
  "decode_default defWhole =
     (let low = map ascii_lower defWhole
      in if prefix [CHR 0x27] defWhole \<and> suffix [CHR 0x27] defWhole then
           (if length defWhole < 2 then Inl SliceBoundsOutOfRange
            else Inr (VString (ReplaceAll (butlast (tl defWhole)) [CHR 0x27, CHR 0x27] [CHR 0x27])))
         else if prefix [CHR 0x22] defWhole \<and> suffix [CHR 0x22] defWhole then
           (if length defWhole < 2 then Inl SliceBoundsOutOfRange
            else Inr (VString (ReplaceAll (butlast (tl defWhole)) [CHR 0x22, CHR 0x22] [CHR 0x22])))
         else if low = ''true'' then Inr (VBool True)
         else if low = ''false'' then Inr (VBool False)
         else if low = ''null'' then Inr VNil
         else (case ParseInt defWhole of
                 Some i \<Rightarrow> Inr (VInt i)
               | None \<Rightarrow> (case ParseFloat defWhole of
                            Some f \<Rightarrow> Inr (VFloat64 f)
                          | None \<Rightarrow> Inr (VString defWhole))))"

text \<open>The loop of \<^verbatim>\<open>extractParamDefaults\<close> over the matches, in the order of the text;
  \<open>m\<close> is the map built so far.\<close>

fun extract_loop :: "(string \<times> string) list \<Rightarrow> params \<Rightarrow> error + params" where
  "extract_loop [] m = Inr m"
| "extract_loop (sm # sms) m =
     bind_err (decode_default (snd sm)) (\<lambda>v. extract_loop sms (m(fst sm \<mapsto> v)))"

definition extractParamDefaults :: "string \<Rightarrow> error + params" where
  "extractParamDefaults sqlText = extract_loop (FindAllStringSubmatch reParam sqlText) Map.empty"

text \<open>\<^verbatim>\<open>regexp.MustCompile(`[A-Za-z_][A-Za-z0-9_]*`).FindAllString(cond, -1)\<close>: this
  pattern has no \<^verbatim>\<open>(?i)\<close>, its classes are ASCII.\<close>

definition is_word_start :: "char \<Rightarrow> bool" where
  "is_word_start c = (is_upper c \<or> is_lower c \<or> c = CHR ''_'')"

definition reWord :: "string matcher" where
  "reWord s =
     (case s of
        [] \<Rightarrow> None
      | c # cs \<Rightarrow>
          if is_word_start c then Some (c # takeWhile is_name_char cs, dropWhile is_name_char cs)
          else None)"

definition reserved :: "string \<Rightarrow> bool" where
  "reserved w =
     (let lw = map ascii_lower w
      in lw = ''null'' \<or> lw = ''true'' \<or> lw = ''false'' \<or> lw = ''and'' \<or> lw = ''or''
         \<or> lw = ''not'')"

text \<open>\<^verbatim>\<open>reBlockKeys = (?i)/\*\?\s*([A-Za-z0-9_]+)\s*\?\*/\<close> is the head of
  \<^verbatim>\<open>reOptBlock\<close>.\<close>

definition reBlockKeys :: "string matcher" where
  "reBlockKeys = opt_head"

text \<open>\<^verbatim>\<open>findTruthyKeysForVariants\<close>: the keys are collected in a set and returned
  sorted, that is, sorted and without duplicates.\<close>

definition findTruthyKeysForVariants :: "string \<Rightarrow> string list" where
  "findTruthyKeysForVariants sqlContent =
     sort (remdups
       (concat (map (\<lambda>cond. filter (\<lambda>w. \<not> reserved w) (FindAllStringSubmatch reWord cond))
                    (FindAllStringSubmatch reIfHead sqlContent))
        @ FindAllStringSubmatch reBlockKeys sqlContent))"


section \<open>Properties of the renderer on the templates of the specification\<close>

abbreviation sq :: string where "sq \<equiv> [CHR 0x27]"
abbreviation dq :: string where "dq \<equiv> [CHR 0x22]"

lemma render_where_before_block:
  "renderNyanSQL ''WHERE /*BEGIN*/ /*IF a*/AND a=1/*END*/ /*END*/'' Map.empty = Inr ''WHERE''"
proof -
  let ?T = "''WHERE /*BEGIN*/ /*IF a*/AND a=1/*END*/ /*END*/''"
  have 1: "optional_blocks Map.empty ?T = Inr ?T" by code_simp
  have 2: "if_blocks Map.empty ?T = Inr ''WHERE /*BEGIN*/  /*END*/''" by code_simp
  have 3: "begin_end_blocks ''WHERE /*BEGIN*/  /*END*/'' = Inr ''WHERE ''" by code_simp
  have 4: "placeholders Map.empty ''WHERE '' = Inr ''WHERE ''" by code_simp
  have 5: "TrimSpace (normalizeWhitespace ''WHERE '') = ''WHERE''" by code_simp
  show ?thesis
    unfolding renderNyanSQL_def bind_err_def by (simp only: 1 2 3 4 5 sum.case)
qed

lemma render_where_inside_block:
  "renderNyanSQL ''/*BEGIN*/ WHERE /*IF a*/AND a=1/*END*/ /*END*/'' Map.empty = Inr []"
proof -
  let ?T = "''/*BEGIN*/ WHERE /*IF a*/AND a=1/*END*/ /*END*/''"
  have 1: "optional_blocks Map.empty ?T = Inr ?T" by code_simp
  have 2: "if_blocks Map.empty ?T = Inr ''/*BEGIN*/ WHERE  /*END*/''" by code_simp
  have 3: "begin_end_blocks ''/*BEGIN*/ WHERE  /*END*/'' = Inr []" by code_simp
  have 4: "placeholders Map.empty [] = Inr []" by code_simp
  have 5: "TrimSpace (normalizeWhitespace []) = []" by code_simp
  show ?thesis
    unfolding renderNyanSQL_def bind_err_def by (simp only: 1 2 3 4 5 sum.case)
qed

text \<open>
  Claim C1, as the specification states it: rendering
  \<^verbatim>\<open>WHERE /*BEGIN*/ /*IF a*/AND a=1/*END*/ /*END*/\<close> against the empty parameter set gives
  a text with no \<^verbatim>\<open>WHERE\<close> at all.  The code does not do that: the prune step only
  looks at the text between \<^verbatim>\<open>/*BEGIN*/\<close> and \<^verbatim>\<open>/*END*/\<close>, and the \<^verbatim>\<open>WHERE\<close> of
  this template stands before the block.  The rendered text is \<^verbatim>\<open>WHERE\<close>.
\<close>

theorem prune_collapse_counterexample:
  "renderNyanSQL ''WHERE /*BEGIN*/ /*IF a*/AND a=1/*END*/ /*END*/'' Map.empty = Inr ''WHERE''
   \<and> Contains ''WHERE'' ''WHERE''"
proof -
  have "Contains ''WHERE'' ''WHERE''" by code_simp
  with render_where_before_block show ?thesis by blast
qed

text \<open>
  Claim C1, amended: the prune step removes a block whose body, once its comments are
  stripped, is empty or a dangling \<^verbatim>\<open>WHERE\<close>, \<^verbatim>\<open>AND\<close> or \<^verbatim>\<open>OR\<close>.  Against the empty
  parameter set, the template of the claim loses its block and keeps the \<^verbatim>\<open>WHERE\<close> that
  stands before it, so that it renders as \<^verbatim>\<open>WHERE\<close>; with the \<^verbatim>\<open>WHERE\<close> inside the
  block the whole clause goes and the rendered text is empty.
\<close>

theorem prune_collapse:
  "renderNyanSQL ''WHERE /*BEGIN*/ /*IF a*/AND a=1/*END*/ /*END*/'' Map.empty = Inr ''WHERE''
   \<and> renderNyanSQL ''/*BEGIN*/ WHERE /*IF a*/AND a=1/*END*/ /*END*/'' Map.empty = Inr []
   \<and> prune '' WHERE  '' = [] \<and> prune ''  '' = []
   \<and> prune '' WHERE  a=1 '' = '' WHERE  a=1 ''"
proof -
  have c: "prune '' WHERE  '' = []" by code_simp
  have d: "prune ''  '' = []" by code_simp
  have e: "prune '' WHERE  a=1 '' = '' WHERE  a=1 ''" by code_simp
  from render_where_before_block render_where_inside_block c d e show ?thesis by blast
qed

text \<open>
  Claim C3: the condition evaluator returns a boolean on every input and never raises.
  The code panics when the right-hand side of a comparison is a single quote character:
  \<^verbatim>\<open>rhs[1 : len(rhs)-1]\<close> is then \<^verbatim>\<open>rhs[1:0]\<close>.  The predicate \<^verbatim>\<open>k == '\<close> is such an
  input, whatever the parameters are, and a template can carry it.
\<close>

theorem evalCond_panics_on_lone_quote:
  "evalCondFlexible (''k == '' @ sq) ps = Inl SliceBoundsOutOfRange
   \<and> renderNyanSQL (''/*IF k == '' @ sq @ ''*/x/*END*/'') Map.empty = Inl SliceBoundsOutOfRange"
proof -
  have a: "evalCondFlexible (''k == '' @ sq) ps = Inl SliceBoundsOutOfRange" by code_simp
  let ?T = "''/*IF k == '' @ sq @ ''*/x/*END*/''"
  have 1: "optional_blocks Map.empty ?T = Inr ?T" by code_simp
  have 2: "if_blocks Map.empty ?T = Inl SliceBoundsOutOfRange" by code_simp
  have r: "renderNyanSQL ?T Map.empty = Inl SliceBoundsOutOfRange"
    unfolding renderNyanSQL_def bind_err_def by (simp only: 1 2 sum.case)
  from a r show ?thesis by blast
qed


section \<open>Placeholder substitution\<close>

lemma strip_prefix_append: "strip_prefix p (p @ s) = Some s"
  by (induction p) auto

lemma strip_prefix_split: "strip_prefix p s = Some r \<Longrightarrow> s = p @ r"
  by (induction p s rule: strip_prefix.induct) (auto split: if_splits)

lemma name_len_name_char: "is_name_char c \<Longrightarrow> name_len (c # cs) = 1"
  by simp

lemma take_name_ascii:
  "list_all is_name_char name \<Longrightarrow> name_len rest = 0 \<Longrightarrow> take_name (name @ rest) = (name, rest)"
proof (induction name)
  case Nil
  then show ?case by (subst take_name.simps) simp
next
  case (Cons c name)
  then show ?case by (subst take_name.simps) simp
qed

lemma name_len_star: "name_len (CHR ''*'' # cs) = 0"
  by (simp add: is_name_char_def is_digit_def is_upper_def is_lower_def)

lemma reParam_span:
  assumes "name \<noteq> []" "list_all is_name_char name"
  shows "reParam (''/*'' @ name @ ''*/'' @ s)
         = map_option (\<lambda>(defWhole, rest). ((name, defWhole), rest)) (default_literal s)"
proof -
  have "take_name (name @ ''*/'' @ s) = (name, ''*/'' @ s)"
    using assms(2) name_len_star by (intro take_name_ascii) simp_all
  then show ?thesis
    using assms(1) by (simp add: reParam_def)
qed

lemma fold_prefix_suffix: "fold_prefix w s = Some r \<Longrightarrow> \<exists>n. r = drop n s \<and> (w \<noteq> [] \<longrightarrow> 0 < n \<and> n \<le> length s)"
proof (induction w arbitrary: s)
  case Nil
  then show ?case by (auto intro: exI[of _ 0])
next
  case (Cons p w)
  from Cons.prems have pos: "fold_len p s \<noteq> 0" and r: "fold_prefix w (drop (fold_len p s) s) = Some r"
    by (auto split: if_splits)
  from Cons.IH[OF r] obtain n where n: "r = drop n (drop (fold_len p s) s)" 
     and n2: "w \<noteq> [] \<longrightarrow> 0 < n \<and> n \<le> length (drop (fold_len p s) s)" by blast
  have le: "fold_len p s \<le> length s" 
    by (cases s) (auto simp: prefix_def)
  show ?case
  proof (cases "w = []")
    case True
    with r have "r = drop (fold_len p s) s" by simp
    with pos le show ?thesis by (intro exI[of _ "fold_len p s"]) auto
  next
    case False
    with n n2 pos le show ?thesis 
      by (intro exI[of _ "n + fold_len p s"]) (auto simp: add.commute)
  qed
qed

lemma keyword_split:
  assumes "keyword w s = Some (D, r)" and "w \<noteq> []"
  shows "s = D @ r \<and> D \<noteq> []"
proof -
  from assms(1) have f: "fold_prefix w s = Some r" and D: "D = take (length s - length r) s"
    unfolding keyword_def by auto
  from fold_prefix_suffix[OF f] assms(2) obtain n
    where n: "r = drop n s" "0 < n" "n \<le> length s" by blast
  then have "length s - length r = n" by simp
  with D have "D = take n s" by simp
  with n show ?thesis by auto
qed

lemma quoted_split:
  assumes "quoted q cs = Some (D, r)"
  shows "q # cs = D @ r \<and> D \<noteq> []"
proof -
  let ?d = "dropWhile (\<lambda>c. c \<noteq> q) cs"
  from assms have ne: "?d \<noteq> []"
    and D: "D = q # takeWhile (\<lambda>c. c \<noteq> q) cs @ [q]" and r: "r = tl ?d"
    unfolding quoted_def Let_def by (auto split: if_splits)
  from ne have "hd ?d = q" using hd_dropWhile[of "\<lambda>c. c \<noteq> q" cs] by simp
  with ne r have "?d = q # r" by (cases ?d) auto
  then have "cs = takeWhile (\<lambda>c. c \<noteq> q) cs @ q # r"
    using takeWhile_dropWhile_id[of "\<lambda>c. c \<noteq> q" cs] by simp
  with D show ?thesis by simp
qed

lemma default_literal_split:
  assumes "default_literal s = Some (D, r)"
  shows "s = D @ r \<and> D \<noteq> []"
proof (cases s)
  case Nil
  with assms show ?thesis by (simp add: default_literal_def)
next
  case (Cons c cs)
  consider (dq) "c = CHR 0x22" | (sq) "c \<noteq> CHR 0x22" "c = CHR 0x27"
    | (num) "c \<noteq> CHR 0x22" "c \<noteq> CHR 0x27" "is_num_char c"
    | (kw) "c \<noteq> CHR 0x22" "c \<noteq> CHR 0x27" "\<not> is_num_char c" by blast
  then show ?thesis
  proof cases
    case dq
    with assms Cons have "quoted c cs = Some (D, r)" by (simp add: default_literal_def)
    from quoted_split[OF this] Cons show ?thesis by simp
  next
    case sq
    with assms Cons have "quoted c cs = Some (D, r)" by (simp add: default_literal_def)
    from quoted_split[OF this] Cons show ?thesis by simp
  next
    case num
    with assms Cons have "D = takeWhile is_num_char s" "r = dropWhile is_num_char s"
      by (simp_all add: default_literal_def)
    with num Cons show ?thesis by simp
  next
    case kw
    with assms Cons have
      "keyword ''true'' s = Some (D, r) \<or> keyword ''false'' s = Some (D, r)
       \<or> keyword ''null'' s = Some (D, r)"
      by (simp add: default_literal_def split: option.splits)
    then show ?thesis using keyword_split[of _ s D r] by auto
  qed
qed

lemma ReplaceAllStringFunc_match:
  "m s = Some (g, rest) \<Longrightarrow> length rest < length s \<Longrightarrow>
   ReplaceAllStringFunc m f s
   = bind_err (f g) (\<lambda>r. bind_err (ReplaceAllStringFunc m f rest) (\<lambda>t. Inr (r @ t)))"
  by (subst ReplaceAllStringFunc.simps) simp

lemma ReplaceAllStringFunc_Nil: "ReplaceAllStringFunc m f [] = Inr []"
  by (subst ReplaceAllStringFunc.simps) (auto split: option.splits)

lemma placeholders_span:
  assumes "name \<noteq> []" "list_all is_name_char name" "default_literal s = Some (D, rest)"
  shows "placeholders ps (''/*'' @ name @ ''*/'' @ s)
         = bind_err (placeholders ps rest) (\<lambda>t. Inr (substitute ps name D @ t))"
proof -
  have m: "reParam (''/*'' @ name @ ''*/'' @ s) = Some ((name, D), rest)"
    using reParam_span[OF assms(1,2)] assms(3) by simp
  have "s = D @ rest" using default_literal_split[OF assms(3)] by simp
  then have len: "length rest < length (''/*'' @ name @ ''*/'' @ s)" by simp
  show ?thesis
    unfolding placeholders_def
    by (subst ReplaceAllStringFunc_match[of reParam _ "(name, D)" rest, OF m len])
       (simp add: bind_err_def)
qed


lemma until_quote:
  "q \<notin> set body \<Longrightarrow>
   takeWhile (\<lambda>c. c \<noteq> q) (body @ q # rest) = body
   \<and> dropWhile (\<lambda>c. c \<noteq> q) (body @ q # rest) = q # rest"
  by (induction body) auto

lemma quoted_literal:
  "q \<notin> set body \<Longrightarrow> quoted q (body @ q # rest) = Some (q # body @ [q], rest)"
  by (simp add: quoted_def until_quote)

lemma default_literal_quoted:
  assumes "q = CHR 0x22 \<or> q = CHR 0x27" "q \<notin> set body"
  shows "default_literal (q # body @ q # rest) = Some (q # body @ [q], rest)"
  using assms by (auto simp: default_literal_def quoted_literal)

lemma render_absent_default:
  "renderNyanSQL (''SELECT /*k*/'' @ sq @ ''d'' @ sq) Map.empty = Inr (''SELECT '' @ sq @ ''d'' @ sq)"
proof -
  let ?T = "''SELECT /*k*/'' @ sq @ ''d'' @ sq"
  let ?R = "''SELECT '' @ sq @ ''d'' @ sq"
  have 1: "optional_blocks Map.empty ?T = Inr ?T" by code_simp
  have 2: "if_blocks Map.empty ?T = Inr ?T" by code_simp
  have 3: "begin_end_blocks ?T = Inr ?T" by code_simp
  have 4: "placeholders Map.empty ?T = Inr ?R" by code_simp
  have 5: "TrimSpace (normalizeWhitespace ?R) = ?R" by code_simp
  show ?thesis
    unfolding renderNyanSQL_def bind_err_def by (simp only: 1 2 3 4 5 sum.case)
qed

text \<open>
  Claim C5 (default fallback): a placeholder span \<^verbatim>\<open>/*name*/D\<close> whose parameter is
  absent, or is \<^verbatim>\<open>nil\<close>, is replaced by its own default literal \<open>D\<close>, unchanged, and
  the substitution goes on in the text after the span.  In particular
  \<^verbatim>\<open>SELECT /*k*/'d'\<close> renders against the empty parameter set as \<^verbatim>\<open>SELECT 'd'\<close>,
  with the quotes.
\<close>

theorem default_fallback:
  assumes "name \<noteq> []" and "list_all is_name_char name"
    and "default_literal s = Some (D, rest)"
    and "ps name = None \<or> ps name = Some VNil"
  shows "s = D @ rest
         \<and> placeholders ps (''/*'' @ name @ ''*/'' @ s)
             = bind_err (placeholders ps rest) (\<lambda>t. Inr (D @ t))
         \<and> renderNyanSQL (''SELECT /*k*/'' @ sq @ ''d'' @ sq) Map.empty
             = Inr (''SELECT '' @ sq @ ''d'' @ sq)"
proof -
  have "substitute ps name D = D"
    using assms(4) by (auto simp: substitute_def)
  with placeholders_span[OF assms(1-3), of ps] default_literal_split[OF assms(3)]
    render_absent_default
  show ?thesis by simp
qed

theorem default_fallback_witness:
  "''k'' \<noteq> [] \<and> list_all is_name_char ''k''
   \<and> default_literal (sq @ ''d'' @ sq @ '' AND x'') = Some (sq @ ''d'' @ sq, '' AND x'')
   \<and> (Map.empty ''k'' = None \<or> Map.empty ''k'' = Some VNil)
   \<and> placeholders Map.empty (''/*k*/'' @ sq @ ''d'' @ sq @ '' AND x'')
       = Inr (sq @ ''d'' @ sq @ '' AND x'')"
proof -
  have n: "list_all is_name_char ''k''" by code_simp
  have d: "default_literal (sq @ ''d'' @ sq @ '' AND x'') = Some (sq @ ''d'' @ sq, '' AND x'')"
    by code_simp
  have r: "placeholders Map.empty '' AND x'' = Inr '' AND x''" by code_simp
  have e: "(Map.empty :: params) ''k'' = None \<or> (Map.empty :: params) ''k'' = Some VNil" by simp
  from default_fallback[OF _ n d e]
  have "placeholders Map.empty (''/*'' @ ''k'' @ ''*/'' @ sq @ ''d'' @ sq @ '' AND x'')
        = bind_err (placeholders Map.empty '' AND x'') (\<lambda>t. Inr ((sq @ ''d'' @ sq) @ t))"
    by simp
  then have "placeholders Map.empty (''/*k*/'' @ sq @ ''d'' @ sq @ '' AND x'')
        = Inr (sq @ ''d'' @ sq @ '' AND x'')"
    by (simp add: r bind_err_def)
  with n d show ?thesis by simp
qed

lemma render_double_quoted:
  "renderNyanSQL (''/*k*/'' @ dq @ ''d'' @ dq) [''k'' \<mapsto> VString (''a'' @ sq @ ''b'')]
   = Inr (dq @ ''a'' @ sq @ ''b'' @ dq)"
proof -
  let ?P = "[''k'' \<mapsto> VString (''a'' @ sq @ ''b'')]"
  let ?T = "''/*k*/'' @ dq @ ''d'' @ dq"
  let ?R = "dq @ ''a'' @ sq @ ''b'' @ dq"
  have 1: "optional_blocks ?P ?T = Inr ?T" by code_simp
  have 2: "if_blocks ?P ?T = Inr ?T" by code_simp
  have 3: "begin_end_blocks ?T = Inr ?T" by code_simp
  have 4: "placeholders ?P ?T = Inr ?R" by code_simp
  have 5: "TrimSpace (normalizeWhitespace ?R) = ?R" by code_simp
  show ?thesis
    unfolding renderNyanSQL_def bind_err_def by (simp only: 1 2 3 4 5 sum.case)
qed

lemma render_single_quoted:
  "renderNyanSQL (''/*k*/'' @ sq @ ''d'' @ sq) [''k'' \<mapsto> VString (''a'' @ sq @ ''b'')]
   = Inr (sq @ ''a'' @ sq @ sq @ ''b'' @ sq)"
proof -
  let ?P = "[''k'' \<mapsto> VString (''a'' @ sq @ ''b'')]"
  let ?T = "''/*k*/'' @ sq @ ''d'' @ sq"
  let ?R = "sq @ ''a'' @ sq @ sq @ ''b'' @ sq"
  have 1: "optional_blocks ?P ?T = Inr ?T" by code_simp
  have 2: "if_blocks ?P ?T = Inr ?T" by code_simp
  have 3: "begin_end_blocks ?T = Inr ?T" by code_simp
  have 4: "placeholders ?P ?T = Inr ?R" by code_simp
  have 5: "TrimSpace (normalizeWhitespace ?R) = ?R" by code_simp
  show ?thesis
    unfolding renderNyanSQL_def bind_err_def by (simp only: 1 2 3 4 5 sum.case)
qed

text \<open>
  Claim C4 (quote style): when the default literal of a placeholder is quoted with \<open>q\<close>
  (a double or a single quote) and the parameter is a string \<open>v\<close>, the span is replaced
  by \<open>v\<close> between two \<open>q\<close>, every \<open>q\<close> inside \<open>v\<close> doubled.  So
  \<^verbatim>\<open>/*k*/"d"\<close> with the value \<^verbatim>\<open>a'b\<close> renders as \<^verbatim>\<open>"a'b"\<close>, and \<^verbatim>\<open>/*k*/'d'\<close>
  as \<^verbatim>\<open>'a''b'\<close>.
\<close>

theorem quote_style_preserved:
  assumes "name \<noteq> []" and "list_all is_name_char name"
    and "q = CHR 0x22 \<or> q = CHR 0x27" and "q \<notin> set body"
    and "ps name = Some (VString v)"
  shows "placeholders ps (''/*'' @ name @ ''*/'' @ [q] @ body @ [q])
           = Inr ([q] @ ReplaceAll v [q] [q, q] @ [q])
         \<and> renderNyanSQL (''/*k*/'' @ dq @ ''d'' @ dq) [''k'' \<mapsto> VString (''a'' @ sq @ ''b'')]
             = Inr (dq @ ''a'' @ sq @ ''b'' @ dq)
         \<and> renderNyanSQL (''/*k*/'' @ sq @ ''d'' @ sq) [''k'' \<mapsto> VString (''a'' @ sq @ ''b'')]
             = Inr (sq @ ''a'' @ sq @ sq @ ''b'' @ sq)"
proof -
  have d: "default_literal ([q] @ body @ [q]) = Some (q # body @ [q], [])"
    using default_literal_quoted[OF assms(3,4), of "[]"] by simp
  have s: "substitute ps name (q # body @ [q]) = [q] @ ReplaceAll v [q] [q, q] @ [q]"
    using assms(3,5) by (auto simp: substitute_def quoteByDefault_def)
  have "placeholders ps (''/*'' @ name @ ''*/'' @ [q] @ body @ [q])
           = Inr ([q] @ ReplaceAll v [q] [q, q] @ [q])"
    using placeholders_span[OF assms(1,2) d, of ps] s
    by (simp add: placeholders_def ReplaceAllStringFunc_Nil bind_err_def)
  with render_double_quoted render_single_quoted show ?thesis by blast
qed

theorem quote_style_preserved_witness:
  "''k'' \<noteq> [] \<and> list_all is_name_char ''k''
   \<and> (CHR 0x22 = CHR 0x22 \<or> CHR 0x22 = CHR 0x27) \<and> CHR 0x22 \<notin> set ''d''
   \<and> [''k'' \<mapsto> VString (''a'' @ dq @ ''b'')] ''k'' = Some (VString (''a'' @ dq @ ''b''))
   \<and> placeholders [''k'' \<mapsto> VString (''a'' @ dq @ ''b'')] (''/*k*/'' @ dq @ ''d'' @ dq)
       = Inr (dq @ ''a'' @ dq @ dq @ ''b'' @ dq)"
proof -
  have n: "list_all is_name_char ''k''" by code_simp
  have r: "ReplaceAll (''a'' @ dq @ ''b'') dq (dq @ dq) = ''a'' @ dq @ dq @ ''b''" by code_simp
  from quote_style_preserved[of "''k''" "CHR 0x22" "''d''"
      "[''k'' \<mapsto> VString (''a'' @ dq @ ''b'')]" "''a'' @ dq @ ''b''", OF _ n]
  have "placeholders [''k'' \<mapsto> VString (''a'' @ dq @ ''b'')] (''/*k*/'' @ dq @ ''d'' @ dq)
       = Inr (dq @ ReplaceAll (''a'' @ dq @ ''b'') dq (dq @ dq) @ dq)"
    by simp
  with r n show ?thesis by simp
qed

section \<open>Numbers in placeholders\<close>










lemma digit_chars:
  "list_all (\<lambda>n. is_digit (char_of (48 + n)) \<and> digit_val (char_of (48 + n)) = n
                \<and> char_of (48 + n) \<noteq> CHR ''+'' \<and> char_of (48 + n) \<noteq> CHR ''-'')
            (map int [0..<10])"
  by code_simp

lemma digit_char:
  assumes "0 \<le> n" "n < (10::int)"
  shows "is_digit (char_of (48 + n))" "digit_val (char_of (48 + n)) = n"
    "char_of (48 + n) \<noteq> CHR ''+''" "char_of (48 + n) \<noteq> CHR ''-''"
proof -
  from assms have "nat n \<in> set [0..<10]" "n = int (nat n)" by simp_all
  then have "n \<in> set (map int [0..<10])" by (metis image_eqI list.set_map)
  with digit_chars have
    "is_digit (char_of (48 + n)) \<and> digit_val (char_of (48 + n)) = n
     \<and> char_of (48 + n) \<noteq> CHR ''+'' \<and> char_of (48 + n) \<noteq> CHR ''-''"
    unfolding list_all_iff by blast
  then show "is_digit (char_of (48 + n))" "digit_val (char_of (48 + n)) = n"
    "char_of (48 + n) \<noteq> CHR ''+''" "char_of (48 + n) \<noteq> CHR ''-''" by simp_all
qed

lemma dec_digits_props:
  "0 \<le> n \<Longrightarrow> dec_digits n \<noteq> [] \<and> list_all is_digit (dec_digits n)
     \<and> foldl (\<lambda>a c. a * 10 + digit_val c) 0 (dec_digits n) = n"
proof (induction n rule: dec_digits.induct)
  case (1 n)
  show ?case
  proof (cases "n < 10")
    case True
    with "1.prems" digit_char(1,2)[of n] show ?thesis
      by (subst (1 2 3) dec_digits.simps) simp
  next
    case False
    with "1.prems" have ih: "dec_digits (n div 10) \<noteq> [] \<and> list_all is_digit (dec_digits (n div 10))
       \<and> foldl (\<lambda>a c. a * 10 + digit_val c) 0 (dec_digits (n div 10)) = n div 10"
      by (intro "1.IH") simp_all
    have m: "0 \<le> n mod 10" "n mod 10 < 10" by simp_all
    from False ih digit_char(1,2)[OF m] show ?thesis
      by (subst (1 2 3) dec_digits.simps) simp
  qed
qed

















section \<open>Determinism\<close>






section \<open>Inference\<close>

lemma reParam_matches_name_age:
  "FindAllStringSubmatch reParam
     (''SELECT * FROM users WHERE name = /*name*/'' @ sq @ ''bob'' @ sq @ '' AND age >= /*age*/0'')
   = [(''name'', sq @ ''bob'' @ sq), (''age'', ''0'')]"
  by code_simp

lemma decode_bob: "decode_default (sq @ ''bob'' @ sq) = Inr (VString ''bob'')"
  by code_simp

lemma decode_zero: "decode_default ''0'' = Inr (VInt 0)"
  by code_simp

text \<open>
  Claim C9 (inference completeness): for a template with the placeholders
  \<^verbatim>\<open>/*name*/'bob'\<close> and \<^verbatim>\<open>/*age*/0\<close>, \<^verbatim>\<open>extractParamDefaults\<close> returns exactly the map
  from \<open>name\<close> to the string \<open>bob\<close> and from \<open>age\<close> to the integer \<open>0\<close>; for
  \<^verbatim>\<open>/*IF vip*/.../*END*/\<close>, \<^verbatim>\<open>findTruthyKeysForVariants\<close> returns exactly the key
  \<open>vip\<close>.
\<close>

theorem inference_completeness:
  "extractParamDefaults
     (''SELECT * FROM users WHERE name = /*name*/'' @ sq @ ''bob'' @ sq @ '' AND age >= /*age*/0'')
   = Inr [''name'' \<mapsto> VString ''bob'', ''age'' \<mapsto> VInt 0]
   \<and> findTruthyKeysForVariants ''/*IF vip*/.../*END*/'' = [''vip'']
   \<and> set (findTruthyKeysForVariants ''/*IF vip*/.../*END*/'') = {''vip''}
   \<and> findTruthyKeysForVariants ''SELECT * FROM t WHERE 1=1 /*IF vip*/ AND vip = 1 /*END*/''
       = [''vip'']"
proof -
  have a: "extractParamDefaults
     (''SELECT * FROM users WHERE name = /*name*/'' @ sq @ ''bob'' @ sq @ '' AND age >= /*age*/0'')
   = Inr [''name'' \<mapsto> VString ''bob'', ''age'' \<mapsto> VInt 0]"
    unfolding extractParamDefaults_def reParam_matches_name_age
    by (simp add: bind_err_def decode_bob decode_zero del: append.simps)
  have b: "findTruthyKeysForVariants ''/*IF vip*/.../*END*/'' = [''vip'']" by code_simp
  have c: "findTruthyKeysForVariants ''SELECT * FROM t WHERE 1=1 /*IF vip*/ AND vip = 1 /*END*/''
       = [''vip'']" by code_simp
  from a b c show ?thesis by simp
qed

lemma extract_loop_keep:
  "extract_loop sms m = Inr m' \<Longrightarrow> name \<notin> fst ` set sms \<Longrightarrow> m' name = m name"
proof (induction sms arbitrary: m)
  case Nil
  then show ?case by simp
next
  case (Cons sm sms)
  from Cons.prems(1) obtain v where v: "decode_default (snd sm) = Inr v"
    and r: "extract_loop sms (m(fst sm \<mapsto> v)) = Inr m'"
    by (auto simp: bind_err_def split: sum.splits)
  from Cons.prems(2) have "name \<noteq> fst sm" "name \<notin> fst ` set sms" by auto
  with Cons.IH[OF r] show ?case by simp
qed

lemma extract_loop_last:
  "extract_loop (pre @ (name, d) # post) m = Inr m' \<Longrightarrow> name \<notin> fst ` set post \<Longrightarrow>
   \<exists>v. decode_default d = Inr v \<and> m' name = Some v"
proof (induction pre arbitrary: m)
  case Nil
  from Nil.prems(1) obtain v where v: "decode_default d = Inr v"
    and r: "extract_loop post (m(name \<mapsto> v)) = Inr m'"
    by (auto simp: bind_err_def split: sum.splits)
  from extract_loop_keep[OF r Nil.prems(2)] v show ?case by simp
next
  case (Cons sm pre)
  from Cons.prems(1) obtain v where
    r: "extract_loop (pre @ (name, d) # post) (m(fst sm \<mapsto> v)) = Inr m'"
    by (auto simp: bind_err_def split: sum.splits)
  from Cons.IH[OF r Cons.prems(2)] show ?case .
qed

text \<open>The default literals that \<^verbatim>\<open>reParam\<close> matches never make the slices of
  \<^verbatim>\<open>extractParamDefaults\<close> panic: a literal that begins with a quote has two.\<close>

lemma default_literal_quote_length:
  assumes "default_literal s = Some (D, r)" and "prefix [q] D" and "q = CHR 0x22 \<or> q = CHR 0x27"
  shows "2 \<le> length D"
proof (cases s)
  case Nil
  with assms show ?thesis by (simp add: default_literal_def)
next
  case (Cons c cs)
  from default_literal_split[OF assms(1)] have s: "s = D @ r" "D \<noteq> []" by simp_all
  with assms(2) Cons have c: "c = q" by (cases D) auto
  with assms(1,3) Cons have "quoted c cs = Some (D, r)"
    by (auto simp: default_literal_def)
  then have "D = c # takeWhile (\<lambda>x. x \<noteq> c) cs @ [c]"
    by (auto simp: quoted_def Let_def split: if_splits)
  then show ?thesis by simp
qed

lemma decode_default_total:
  assumes "default_literal s = Some (D, r)"
  shows "\<exists>v. decode_default D = Inr v"
proof -
  have a: "prefix [CHR 0x27] D \<Longrightarrow> 2 \<le> length D"
    using default_literal_quote_length[OF assms, of "CHR 0x27"] by simp
  have b: "prefix [CHR 0x22] D \<Longrightarrow> 2 \<le> length D"
    using default_literal_quote_length[OF assms, of "CHR 0x22"] by simp
  show ?thesis
    unfolding decode_default_def Let_def
    using a b by (auto split: option.splits)
qed

lemma reParam_default:
  "reParam s = Some ((name, D), r) \<Longrightarrow> \<exists>s'. default_literal s' = Some (D, r)"
  unfolding reParam_def
  by (auto split: option.splits prod.splits if_splits)

lemma FindAll_from_matcher:
  "g \<in> set (FindAllStringSubmatch m s) \<Longrightarrow> \<exists>s' r. m s' = Some (g, r)"
proof (induction m s rule: FindAllStringSubmatch.induct)
  case (1 m s)
  let ?c = "case m s of Some gr \<Rightarrow> if length (snd gr) < length s then Some gr else None
            | None \<Rightarrow> None"
  show ?case
  proof (cases ?c)
    case None
    from "1.prems" have "g \<in> set (if s = [] then [] else FindAllStringSubmatch m (tl s))"
      by (subst (asm) FindAllStringSubmatch.simps) (simp only: None option.case)
    then have s: "s \<noteq> []" and g: "g \<in> set (FindAllStringSubmatch m (tl s))"
      by (auto split: if_splits)
    from "1.IH"(1)[OF None s g] show ?thesis .
  next
    case (Some gr)
    then have ms: "m s = Some gr" by (auto split: option.splits if_splits)
    from "1.prems" have "g \<in> set (fst gr # FindAllStringSubmatch m (snd gr))"
      by (subst (asm) FindAllStringSubmatch.simps) (simp only: Some option.case)
    then have "g = fst gr \<or> g \<in> set (FindAllStringSubmatch m (snd gr))" by simp
    then show ?thesis
    proof
      assume "g = fst gr"
      with ms show ?thesis by (intro exI[of _ s] exI[of _ "snd gr"]) simp
    next
      assume "g \<in> set (FindAllStringSubmatch m (snd gr))"
      from "1.IH"(2)[OF Some this] show ?thesis .
    qed
  qed
qed

lemma extract_loop_total:
  "\<forall>sm \<in> set sms. \<exists>v. decode_default (snd sm) = Inr v \<Longrightarrow> \<exists>m'. extract_loop sms m = Inr m'"
proof (induction sms arbitrary: m)
  case Nil
  then show ?case by simp
next
  case (Cons sm sms)
  then obtain v where v: "decode_default (snd sm) = Inr v" by auto
  from Cons.prems have "\<forall>sm \<in> set sms. \<exists>v. decode_default (snd sm) = Inr v" by simp
  from Cons.IH[OF this] obtain m' where "extract_loop sms (m(fst sm \<mapsto> v)) = Inr m'" by blast
  with v have "extract_loop (sm # sms) m = Inr m'" by (simp add: bind_err_def)
  then show ?case by blast
qed

lemma extractParamDefaults_total: "\<exists>m. extractParamDefaults sqlText = Inr m"
proof -
  have "\<forall>sm \<in> set (FindAllStringSubmatch reParam sqlText). \<exists>v. decode_default (snd sm) = Inr v"
  proof
    fix sm assume "sm \<in> set (FindAllStringSubmatch reParam sqlText)"
    from FindAll_from_matcher[OF this] obtain s' r where "reParam s' = Some (sm, r)" by blast
    then have "reParam s' = Some ((fst sm, snd sm), r)" by simp
    from reParam_default[OF this] obtain s'' where "default_literal s'' = Some (snd sm, r)" by blast
    from decode_default_total[OF this] show "\<exists>v. decode_default (snd sm) = Inr v" .
  qed
  from extract_loop_total[OF this] show ?thesis by (simp add: extractParamDefaults_def)
qed

text \<open>
  Claim C10 (the last occurrence wins): when a placeholder name occurs more than once,
  \<^verbatim>\<open>extractParamDefaults\<close> maps it to the decoded default of its last match in the text:
  the loop goes over the matches in order and each assignment \<^verbatim>\<open>m[name] = v\<close> overwrites
  the one before.  This holds for every template and every name, and the function always
  returns a map.
\<close>

theorem last_default_wins:
  assumes "FindAllStringSubmatch reParam sqlText = pre @ (name, d) # post"
    and "name \<notin> fst ` set post"
  shows "\<exists>m v. extractParamDefaults sqlText = Inr m \<and> decode_default d = Inr v
               \<and> m name = Some v"
proof -
  from extractParamDefaults_total obtain m where m: "extractParamDefaults sqlText = Inr m" by blast
  then have "extract_loop (pre @ (name, d) # post) Map.empty = Inr m"
    by (simp add: extractParamDefaults_def assms(1))
  from extract_loop_last[OF this assms(2)] m show ?thesis by blast
qed

theorem last_default_wins_witness:
  "FindAllStringSubmatch reParam ''a = /*k*/1 OR b = /*j*/5 OR c = /*k*/2''
     = [(''k'', ''1''), (''j'', ''5'')] @ (''k'', ''2'') # []
   \<and> ''k'' \<notin> fst ` set []
   \<and> (\<exists>m. extractParamDefaults ''a = /*k*/1 OR b = /*j*/5 OR c = /*k*/2'' = Inr m
            \<and> m ''k'' = Some (VInt 2))"
proof -
  have f: "FindAllStringSubmatch reParam ''a = /*k*/1 OR b = /*j*/5 OR c = /*k*/2''
     = [(''k'', ''1''), (''j'', ''5'')] @ (''k'', ''2'') # []" by code_simp
  have d: "decode_default ''2'' = Inr (VInt 2)" by code_simp
  from last_default_wins[OF f] d show ?thesis using f by auto
qed

section \<open>Equality in conditions\<close>

lemma Index_prefix: "Index s sub = Some i \<Longrightarrow> prefix sub (drop i s)"
proof (induction s arbitrary: i)
  case Nil
  then show ?case by (simp split: if_splits)
next
  case (Cons c cs)
  show ?case
  proof (cases "prefix sub (c # cs)")
    case True
    with Cons.prems show ?thesis by simp
  next
    case False
    with Cons.prems obtain j where "Index cs sub = Some j" "i = Suc j" by auto
    with Cons.IH show ?thesis by simp
  qed
qed

lemma Index_first:
  "CHR ''='' \<notin> set l \<Longrightarrow> Index (l @ ''=='' @ r) ''=='' = Some (length l)"
  by (induction l) (auto simp: prefix_def)

lemma Contains_eq_operator:
  assumes "c = l @ ''=='' @ r" "CHR ''='' \<notin> set l"
  shows "Contains c ''==''" "has_operator_char c" "split_at c ''=='' = (l, r)"
  using assms Index_first[of l r]
  by (simp_all add: Contains_def has_operator_char_def split_at_def)


lemma round_half_even_nonneg: "0 \<le> x \<Longrightarrow> 0 \<le> round_half_even x"
  by (auto simp: round_half_even_def Let_def)

lemma pow_int_pos: "0 < b \<Longrightarrow> 0 < pow_int b e"
  by (simp add: pow_int_def)

lemma round_f64_nonneg:
  assumes "round_f64 q = Some r"
  shows "0 \<le> r"
proof (cases "q \<le> 0")
  case True
  with assms show ?thesis by (simp add: round_f64_def)
next
  case False
  define e where "e = max (floor_log 2 q - 52) (- 1074)"
  have p: "0 < pow_int 2 e" by (rule pow_int_pos) simp
  with False have "0 \<le> q / pow_int 2 e" by simp
  then have "0 \<le> round_half_even (q / pow_int 2 e)" by (rule round_half_even_nonneg)
  with p have "0 \<le> of_int (round_half_even (q / pow_int 2 e)) * pow_int 2 e" by simp
  moreover from assms False
  have "r = of_int (round_half_even (q / pow_int 2 e)) * pow_int 2 e"
    by (simp add: round_f64_def Let_def e_def split: if_splits)
  ultimately show ?thesis by simp
qed

lemma ParseFloat_nonneg:
  assumes "ParseFloat s = Some (Finite neg q)"
  shows "0 \<le> q"
proof -
  have sp: "special s = None"
  proof (cases "special s")
    case None
    then show ?thesis .
  next
    case (Some f)
    then have "f = NaN \<or> (\<exists>n. f = Infinity n)"
      by (auto simp: special_def Let_def split: if_splits)
    with Some assms show ?thesis by (auto simp: ParseFloat_def)
  qed
  from assms sp obtain x where "round_f64 x = Some q"
    by (auto simp: ParseFloat_def Let_def split: if_splits prod.splits)
  then show ?thesis by (rule round_f64_nonneg)
qed

lemma shortest_from_nonneg:
  "0 < q \<Longrightarrow> shortest_from fuel n q = (d, k) \<Longrightarrow> 0 \<le> d"
proof (induction fuel arbitrary: n)
  case 0
  define k0 where "k0 = floor_log 10 q - (int n - 1)"
  have "0 < pow_int 10 k0" by (rule pow_int_pos) simp
  with "0.prems"(1) have "0 \<le> q / pow_int 10 k0" by simp
  then have lo: "0 \<le> \<lfloor>q / pow_int 10 k0\<rfloor>" by simp
  from "0.prems"(2) have "d = \<lfloor>q / pow_int 10 k0\<rfloor> \<or> d = \<lfloor>q / pow_int 10 k0\<rfloor> + 1"
    by (subst (asm) shortest_from.simps) (auto simp: Let_def k0_def split: if_splits)
  with lo show ?case by auto
next
  case (Suc f)
  define k0 where "k0 = floor_log 10 q - (int n - 1)"
  have "0 < pow_int 10 k0" by (rule pow_int_pos) simp
  with Suc.prems(1) have "0 \<le> q / pow_int 10 k0" by simp
  then have lo: "0 \<le> \<lfloor>q / pow_int 10 k0\<rfloor>" by simp
  from Suc.prems(2) have "d = \<lfloor>q / pow_int 10 k0\<rfloor> \<or> d = \<lfloor>q / pow_int 10 k0\<rfloor> + 1
      \<or> shortest_from f (n + 1) q = (d, k)"
    by (subst (asm) shortest_from.simps) (auto simp: Let_def k0_def split: if_splits)
  with lo Suc.IH[OF Suc.prems(1)] show ?case by auto
qed

lemma strip_zeros_fst_nonneg:
  "0 \<le> d \<Longrightarrow> strip_zeros fuel d k = (d', k') \<Longrightarrow> 0 \<le> d'"
proof (induction fuel arbitrary: d k)
  case 0
  then show ?case by (subst (asm) strip_zeros.simps) simp
next
  case (Suc f)
  show ?case
  proof (cases "d \<noteq> 0 \<and> d mod 10 = 0")
    case True
    with Suc.prems(2) have r: "strip_zeros f (d div 10) (k + 1) = (d', k')"
      by (subst (asm) strip_zeros.simps) simp
    from Suc.prems(1) have "0 \<le> d div 10" by simp
    from Suc.IH[OF this r] show ?thesis .
  next
    case False
    with Suc.prems(2) have "d' = d"
      by (subst (asm) strip_zeros.simps) auto
    with Suc.prems(1) show ?thesis by simp
  qed
qed

lemma shortest_nonneg:
  assumes "0 \<le> q" "shortest q = (d, k)"
  shows "0 \<le> d"
proof (cases "q = 0")
  case True
  with assms(2) show ?thesis by (simp add: shortest_def)
next
  case False
  with assms(1) have q: "0 < q" by simp
  obtain d0 k0 where s: "shortest_from 16 1 q = (d0, k0)" by (cases "shortest_from 16 1 q")
  from shortest_from_nonneg[OF q s] have "0 \<le> d0" .
  moreover from assms(2) False s have "strip_zeros 20 d0 k0 = (d, k)" by (simp add: shortest_def)
  ultimately show ?thesis by (rule strip_zeros_fst_nonneg)
qed

lemma dec_digits_start: "0 \<le> d \<Longrightarrow> dec_digits d \<noteq> [] \<and> is_digit (hd (dec_digits d))"
  using dec_digits_props[of d] by (cases "dec_digits d") simp_all

lemma is_digit_zero: "is_digit (CHR ''0'')"
  by code_simp

lemma layout_f_start: "0 \<le> d \<Longrightarrow> number_start (layout_f d k)"
  using dec_digits_start[of d] is_digit_zero
  by (auto simp: layout_f_def Let_def number_start_def hd_append)

lemma layout_e_start: "0 \<le> d \<Longrightarrow> number_start (layout_e d k)"
  using dec_digits_start[of d]
  by (simp add: layout_e_def Let_def number_start_def)

lemma sprint_float_start:
  assumes "\<And>neg q. f = Finite neg q \<Longrightarrow> 0 \<le> q"
  shows "number_start (sprint_float f)"
proof (cases f)
  case (Finite n q)
  obtain d k where s: "shortest q = (d, k)" by (cases "shortest q")
  from assms Finite have "0 \<le> q" by simp
  from shortest_nonneg[OF this s] have d: "0 \<le> d" .
  from layout_f_start[OF d] layout_e_start[OF d] Finite s show ?thesis
    by (auto simp: sprint_float_def Let_def number_start_def)
next
  case (Infinity n)
  then show ?thesis by (simp add: sprint_float_def number_start_def)
next
  case NaN
  then show ?thesis by (simp add: sprint_float_def number_start_def)
qed

lemma FormatInt_start: "number_start (FormatInt i)"
  using dec_digits_start[of i] dec_digits_start[of "- i"]
  by (auto simp: FormatInt_def number_start_def)

lemma bool_text_not_number:
  "\<not> number_start ''true''" "\<not> number_start ''false''"
  by (simp_all add: number_start_def is_digit_def)

lemma parse_rhs_kinds:
  assumes "parse_rhs rhs = Inr (Some v)"
  shows "v = VNil \<or> (\<exists>b. v = VBool b) \<or> (\<exists>s. v = VString s) \<or> (\<exists>i. v = VInt i)
         \<or> (\<exists>f. v = VFloat64 f \<and> ParseFloat rhs = Some f)"
  using assms by (auto simp: parse_rhs_def split: if_splits option.splits)

lemma parse_rhs_nil: "parse_rhs rhs = Inr (Some VNil) \<longleftrightarrow> EqualFold rhs ''null''"
  by (auto simp: parse_rhs_def split: if_splits option.splits)

lemma eq_bool_parsed:
  assumes "parse_rhs rhs = Inr (Some v)"
  shows "eq (VBool b) v \<longleftrightarrow> v = VBool b \<or> v = VString (if b then ''true'' else ''false'')"
proof -
  from parse_rhs_kinds[OF assms] consider "v = VNil" | bb where "v = VBool bb"
    | s where "v = VString s" | i where "v = VInt i"
    | f where "v = VFloat64 f" "ParseFloat rhs = Some f" by blast
  then show ?thesis
  proof cases
    case 1
    then show ?thesis by simp
  next
    case 2
    then show ?thesis by auto
  next
    case 3
    then show ?thesis by auto
  next
    case 4
    with FormatInt_start[of i] bool_text_not_number show ?thesis by auto
  next
    case 5
    have "number_start (sprint_float f)"
    proof (rule sprint_float_start)
      fix neg q assume "f = Finite neg q"
      with 5(2) show "0 \<le> q" using ParseFloat_nonneg by simp
    qed
    with 5(1) bool_text_not_number show ?thesis by auto
  qed
qed

lemma evalCond_comparison:
  assumes "TrimSpace cond = l @ ''=='' @ r" and "CHR ''='' \<notin> set l"
  shows "evalCondFlexible cond ps
         = bind_err (parse_rhs (TrimSpace r))
             (\<lambda>x. case x of None \<Rightarrow> Inr False
                   | Some rhsV \<Rightarrow> Inr (eq (lookup ps (TrimSpace l)) rhsV))"
  using Contains_eq_operator[OF assms]
  by (simp add: evalCondFlexible_def Let_def)

lemma evalCond_true_iff:
  assumes "TrimSpace cond = l @ ''=='' @ r" and "CHR ''='' \<notin> set l"
  shows "evalCondFlexible cond ps = Inr True
         \<longleftrightarrow> (\<exists>v. parse_rhs (TrimSpace r) = Inr (Some v) \<and> eq (lookup ps (TrimSpace l)) v)"
  unfolding evalCond_comparison[OF assms]
  by (auto simp: bind_err_def split: sum.splits option.splits)

lemma bool_equals_its_text:
  "evalCondFlexible (''k == '' @ sq @ ''true'' @ sq) [''k'' \<mapsto> VBool True] = Inr True"
  by code_simp

text \<open>
  Claim C2, as the specification states it: in a comparison \<^verbatim>\<open>k == R\<close> a Bool parameter
  equals only the same Bool, never a quoted string such as \<^verbatim>\<open>'true'\<close>.  The code compares
  the two printed forms when the right-hand side is not a Bool, and \<^verbatim>\<open>true\<close> prints as
  the text of the string: with \<^verbatim>\<open>k\<close> set to \<^verbatim>\<open>true\<close>, the predicate \<^verbatim>\<open>k == 'true'\<close>
  holds, although its right-hand side parses to a string.
\<close>

theorem bool_equality_counterexample:
  "evalCondFlexible (''k == '' @ sq @ ''true'' @ sq) [''k'' \<mapsto> VBool True] = Inr True
   \<and> parse_rhs (sq @ ''true'' @ sq) = Inr (Some (VString ''true''))
   \<and> parse_rhs (sq @ ''true'' @ sq) \<noteq> Inr (Some (VBool True))"
proof -
  have "parse_rhs (sq @ ''true'' @ sq) = Inr (Some (VString ''true''))" by code_simp
  with bool_equals_its_text show ?thesis by simp
qed

text \<open>
  Claim C2, amended: for a predicate whose text is \<^verbatim>\<open>l == r\<close> (no \<^verbatim>\<open>=\<close> in \<open>l\<close>; the key
  and the right-hand side are \<open>l\<close> and \<open>r\<close> without the white space around them).  If the
  parameter is a Bool \<open>b\<close>, the predicate is true exactly when the right-hand side parses to
  the same Bool or to a quoted string whose content is the printed form of \<open>b\<close>, \<^verbatim>\<open>true\<close>
  or \<^verbatim>\<open>false\<close>; no number and no \<^verbatim>\<open>null\<close> equals it.  If the parameter is \<^verbatim>\<open>nil\<close> or
  missing, the predicate is true exactly when the right-hand side is the literal
  \<^verbatim>\<open>null\<close>, in any letter case.
\<close>

theorem bool_and_null_equality:
  assumes "TrimSpace cond = l @ ''=='' @ r" and "CHR ''='' \<notin> set l"
  shows "(ps (TrimSpace l) = Some (VBool b)
          \<longrightarrow> (evalCondFlexible cond ps = Inr True
               \<longleftrightarrow> parse_rhs (TrimSpace r) = Inr (Some (VBool b))
                   \<or> parse_rhs (TrimSpace r)
                       = Inr (Some (VString (if b then ''true'' else ''false'')))))
         \<and> (ps (TrimSpace l) = None \<or> ps (TrimSpace l) = Some VNil
            \<longrightarrow> (evalCondFlexible cond ps = Inr True \<longleftrightarrow> EqualFold (TrimSpace r) ''null''))"
proof (intro conjI impI)
  assume "ps (TrimSpace l) = Some (VBool b)"
  then have lk: "lookup ps (TrimSpace l) = VBool b" by (simp add: lookup_def)
  show "evalCondFlexible cond ps = Inr True
        \<longleftrightarrow> parse_rhs (TrimSpace r) = Inr (Some (VBool b))
            \<or> parse_rhs (TrimSpace r) = Inr (Some (VString (if b then ''true'' else ''false'')))"
    unfolding evalCond_true_iff[OF assms] lk
    using eq_bool_parsed[of "TrimSpace r" _ b] by blast
next
  assume "ps (TrimSpace l) = None \<or> ps (TrimSpace l) = Some VNil"
  then have lk: "lookup ps (TrimSpace l) = VNil" by (auto simp: lookup_def)
  show "evalCondFlexible cond ps = Inr True \<longleftrightarrow> EqualFold (TrimSpace r) ''null''"
    unfolding evalCond_true_iff[OF assms] lk
    using parse_rhs_nil[of "TrimSpace r"] by auto
qed

theorem bool_and_null_equality_witness:
  "TrimSpace ('' k == '' @ sq @ ''true'' @ sq) = ''k '' @ ''=='' @ '' '' @ sq @ ''true'' @ sq
   \<and> CHR ''='' \<notin> set ''k ''
   \<and> [''k'' \<mapsto> VBool True] (TrimSpace ''k '') = Some (VBool True)
   \<and> evalCondFlexible ('' k == '' @ sq @ ''true'' @ sq) [''k'' \<mapsto> VBool True] = Inr True
   \<and> TrimSpace ''k == NULL'' = ''k '' @ ''=='' @ '' NULL''
   \<and> (Map.empty (TrimSpace ''k '') = None \<or> Map.empty (TrimSpace ''k '') = Some VNil)
   \<and> evalCondFlexible ''k == NULL'' Map.empty = Inr True"
proof -
  have t1: "TrimSpace ('' k == '' @ sq @ ''true'' @ sq) = ''k '' @ ''=='' @ '' '' @ sq @ ''true'' @ sq"
    by code_simp
  have t2: "TrimSpace ''k == NULL'' = ''k '' @ ''=='' @ '' NULL''" by code_simp
  have e: "CHR ''='' \<notin> set ''k ''" by simp
  have k: "TrimSpace ''k '' = ''k''" by code_simp
  have r1: "parse_rhs (TrimSpace ('' '' @ sq @ ''true'' @ sq)) = Inr (Some (VString ''true''))"
    by code_simp
  have r2: "EqualFold (TrimSpace '' NULL'') ''null''" by code_simp
  have p1: "[''k'' \<mapsto> VBool True] (TrimSpace ''k '') = Some (VBool True)" by (simp add: k)
  have p2: "(Map.empty :: params) (TrimSpace ''k '') = None" by simp
  from bool_and_null_equality[OF t1 e, of "[''k'' \<mapsto> VBool True]" True] p1 r1
  have a: "evalCondFlexible ('' k == '' @ sq @ ''true'' @ sq) [''k'' \<mapsto> VBool True] = Inr True"
    by simp
  from bool_and_null_equality[OF t2 e, of Map.empty] p2 r2
  have b: "evalCondFlexible ''k == NULL'' Map.empty = Inr True"
    by simp
  from t1 t2 e p1 p2 a b show ?thesis by simp
qed

section \<open>Canonical normalisation applied twice\<close>

lemma adj_all_Cons: "adj_all Q (x # r) \<longleftrightarrow> (r = [] \<or> Q x (hd r)) \<and> adj_all Q r"
  by (cases r) auto

lemma adj_all_drop: "adj_all Q s \<Longrightarrow> adj_all Q (drop n s)"
proof (induction n arbitrary: s)
  case 0
  then show ?case by simp
next
  case (Suc n)
  then show ?case by (cases s) (auto simp: adj_all_Cons)
qed

lemma adj_all_take: "adj_all Q s \<Longrightarrow> adj_all Q (take n s)"
proof (induction s arbitrary: n)
  case Nil
  then show ?case by simp
next
  case (Cons x s)
  show ?case
  proof (cases n)
    case 0
    then show ?thesis by simp
  next
    case (Suc m)
    from Cons.prems have a: "adj_all Q s" and b: "s = [] \<or> Q x (hd s)"
      by (simp_all add: adj_all_Cons)
    from Cons.IH[OF a] have "adj_all Q (take m s)" .
    moreover have "take m s = [] \<or> Q x (hd (take m s))"
      using b by (cases s; cases m) auto
    ultimately show ?thesis using Suc by (simp add: adj_all_Cons)
  qed
qed

subsection \<open>A text without comment openers is not changed by stripComments\<close>

lemma not_Contains_Cons:
  assumes "\<not> Contains (c # cs) p"
  shows "\<not> prefix p (c # cs)" "\<not> Contains cs p"
  using assms by (auto simp: Contains_def split: if_splits)

lemma stripComments_id:
  "\<not> Contains t ''/*'' \<Longrightarrow> \<not> Contains t ''--'' \<Longrightarrow> stripComments t = t"
proof (induction t)
  case Nil
  show ?case by (subst stripComments.simps) simp
next
  case (Cons c cs)
  from not_Contains_Cons[OF Cons.prems(1)] not_Contains_Cons[OF Cons.prems(2)]
  have n1: "\<not> prefix ''/*'' (c # cs)" and n2: "\<not> prefix ''--'' (c # cs)"
    and c1: "\<not> Contains cs ''/*''" and c2: "\<not> Contains cs ''--''" by blast+
  from Cons.IH[OF c1 c2] have ih: "stripComments cs = cs" .
  show ?case
    by (subst stripComments.simps, simp only: n1 n2 if_False, simp add: ih)
qed

subsection \<open>What collapse_space leaves\<close>

lemma rx_space_space: "is_rx_space (CHR 0x20)"
  by (simp add: is_rx_space_def)

lemma collapse_space_only_plain: "only_plain_space (collapse_space s)"
proof (induction s rule: collapse_space.induct)
  case (1 s)
  show ?case
  proof (cases "s = []")
    case True
    then show ?thesis by (subst collapse_space.simps) (simp add: only_plain_space_def)
  next
    case False
    show ?thesis
    proof (cases "is_rx_space (hd s)")
      case True
      with False "1.IH"(1) have "only_plain_space (collapse_space (dropWhile is_rx_space s))"
        by simp
      with False True show ?thesis
        by (subst collapse_space.simps) (simp add: only_plain_space_def)
    next
      case f: False
      with False "1.IH"(2) have "only_plain_space (collapse_space (tl s))" by simp
      with False f show ?thesis
        by (subst collapse_space.simps) (simp add: only_plain_space_def)
    qed
  qed
qed

lemma collapse_space_hd:
  "s \<noteq> [] \<Longrightarrow> \<not> is_rx_space (hd s) \<Longrightarrow>
   collapse_space s \<noteq> [] \<and> hd (collapse_space s) = hd s"
  by (subst (1 2) collapse_space.simps) simp

lemma collapse_space_Nil: "collapse_space [] = []"
  by (subst collapse_space.simps) simp

lemma collapse_space_adj: "adj_all no_double_space (collapse_space s)"
proof (induction s rule: collapse_space.induct)
  case (1 s)
  show ?case
  proof (cases "s = []")
    case True
    then show ?thesis by (simp add: collapse_space_Nil)
  next
    case False
    show ?thesis
    proof (cases "is_rx_space (hd s)")
      case True
      let ?r = "dropWhile is_rx_space s"
      from False True "1.IH"(1) have ih: "adj_all no_double_space (collapse_space ?r)" by simp
      have nb: "collapse_space ?r = [] \<or> hd (collapse_space ?r) \<noteq> CHR 0x20"
      proof (cases "?r = []")
        case True
        show ?thesis unfolding True by (simp add: collapse_space_Nil)
      next
        case f: False
        then have "\<not> is_rx_space (hd ?r)" by (rule hd_dropWhile)
        with collapse_space_hd[OF f this] rx_space_space show ?thesis by metis
      qed
      from nb have q: "collapse_space ?r = [] \<or> no_double_space (CHR 0x20) (hd (collapse_space ?r))"
        by (auto simp: no_double_space_def)
      have e: "collapse_space s = CHR 0x20 # collapse_space ?r"
        using False True by (subst collapse_space.simps) simp
      from ih q show ?thesis unfolding e adj_all_Cons by blast
    next
      case f: False
      with False "1.IH"(2) have ih: "adj_all no_double_space (collapse_space (tl s))" by simp
      from f rx_space_space have "hd s \<noteq> CHR 0x20" by metis
      then have q: "no_double_space (hd s) y" for y by (simp add: no_double_space_def)
      have e: "collapse_space s = hd s # collapse_space (tl s)"
        using False f by (subst collapse_space.simps) simp
      from ih q show ?thesis unfolding e adj_all_Cons by blast
    qed
  qed
qed

lemma collapse_space_id:
  "only_plain_space t \<Longrightarrow> adj_all no_double_space t \<Longrightarrow> collapse_space t = t"
proof (induction t)
  case Nil
  show ?case by (rule collapse_space_Nil)
next
  case (Cons c cs)
  from Cons.prems have ih: "collapse_space cs = cs"
    by (intro Cons.IH) (simp_all add: only_plain_space_def adj_all_Cons)
  show ?case
  proof (cases "is_rx_space c")
    case False
    with ih show ?thesis by (subst collapse_space.simps) simp
  next
    case True
    with Cons.prems(1) have c: "c = CHR 0x20" by (simp add: only_plain_space_def)
    have "dropWhile is_rx_space cs = cs"
    proof (cases cs)
      case Nil
      then show ?thesis by simp
    next
      case (Cons d ds)
      with Cons.prems(2) c have "d \<noteq> CHR 0x20" by (simp add: no_double_space_def)
      moreover from Cons Cons.prems(1) have "is_rx_space d \<longrightarrow> d = CHR 0x20"
        by (simp add: only_plain_space_def)
      ultimately show ?thesis using Cons by simp
    qed
    with True c ih show ?thesis by (subst collapse_space.simps) simp
  qed
qed


subsection \<open>What the four replacements leave\<close>

lemma adj_all_mono: "(\<And>x y. Q x y \<Longrightarrow> Q' x y) \<Longrightarrow> adj_all Q s \<Longrightarrow> adj_all Q' s"
  by (induction Q s rule: adj_all.induct) auto

lemma prefix_one: "prefix [b] cs \<longleftrightarrow> (\<exists>r. cs = b # r)"
  by (cases cs) auto

lemma ReplaceAll_Nil: "ReplaceAll [] old new = []"
  by (subst ReplaceAll.simps) simp

lemma ReplaceAll_match: "ReplaceAll (a # b # r) [a, b] [x] = x # ReplaceAll r [a, b] [x]"
  by (subst ReplaceAll.simps) simp

lemma ReplaceAll_skip:
  "\<not> (c = a \<and> (\<exists>r. cs = b # r)) \<Longrightarrow>
   ReplaceAll (c # cs) [a, b] [x] = c # ReplaceAll cs [a, b] [x]"
  by (subst ReplaceAll.simps) (auto simp: prefix_one)

lemma ReplaceAll_hd:
  assumes "s \<noteq> []"
  shows "ReplaceAll s [a, b] [x] \<noteq> []
     \<and> hd (ReplaceAll s [a, b] [x]) = (if \<exists>r. s = a # b # r then x else hd s)"
proof (cases "\<exists>r. s = a # b # r")
  case True
  then obtain r where "s = a # b # r" by blast
  then show ?thesis by (simp add: ReplaceAll_match)
next
  case False
  from assms obtain c cs where s: "s = c # cs" by (cases s) auto
  with False have "\<not> (c = a \<and> (\<exists>r. cs = b # r))" by simp
  from ReplaceAll_skip[OF this, of x] False s show ?thesis by auto
qed

lemma ReplaceAll_id:
  "adj_all (\<lambda>x y. \<not> (x = a \<and> y = b)) s \<Longrightarrow> ReplaceAll s [a, b] [x] = s"
proof (induction s)
  case Nil
  show ?case by (rule ReplaceAll_Nil)
next
  case (Cons c cs)
  from Cons.prems have ih: "ReplaceAll cs [a, b] [x] = cs" and
    n: "cs = [] \<or> \<not> (c = a \<and> hd cs = b)"
    using Cons.IH by (simp_all add: adj_all_Cons)
  from n have "\<not> (c = a \<and> (\<exists>r. cs = b # r))" by auto
  from ReplaceAll_skip[OF this, of x] ih show ?case by simp
qed

lemma ReplaceAll_set: "set (ReplaceAll s [a, b] [x]) \<subseteq> insert x (set s)"
proof (induction "length s" arbitrary: s rule: less_induct)
  case less
  show ?case
  proof (cases "\<exists>r. s = a # b # r")
    case True
    then obtain r where s: "s = a # b # r" by blast
    then have "length r < length s" by simp
    from less[OF this] s show ?thesis by (auto simp: ReplaceAll_match)
  next
    case False
    show ?thesis
    proof (cases s)
      case Nil
      then show ?thesis by (simp add: ReplaceAll_Nil)
    next
      case (Cons c cs)
      then have l: "length cs < length s" by simp
      from False Cons have "\<not> (c = a \<and> (\<exists>r. cs = b # r))" by simp
      from ReplaceAll_skip[OF this, of x] less[OF l] Cons show ?thesis by auto
    qed
  qed
qed

text \<open>Deleting the space before \<open>b\<close>: the pair (space, \<open>b\<close>) is gone, and what held of the
  neighbours still holds.\<close>

lemma ReplaceAll_before:
  assumes b: "b \<noteq> CHR 0x20"
    and nd: "\<And>x y. Q x y \<Longrightarrow> no_double_space x y"
    and nw: "\<And>c. c \<noteq> CHR 0x20 \<Longrightarrow> Q c b"
  shows "adj_all Q s \<Longrightarrow>
         adj_all (\<lambda>x y. Q x y \<and> \<not> (x = CHR 0x20 \<and> y = b)) (ReplaceAll s [CHR 0x20, b] [b])"
proof (induction "length s" arbitrary: s rule: less_induct)
  case less
  let ?Q = "\<lambda>x y. Q x y \<and> \<not> (x = CHR 0x20 \<and> y = b)"
  let ?R = "\<lambda>s. ReplaceAll s [CHR 0x20, b] [b]"
  show ?case
  proof (cases "\<exists>r. s = CHR 0x20 # b # r")
    case True
    then obtain r where s: "s = CHR 0x20 # b # r" by blast
    from less.prems s have qr: "adj_all Q r" and qb: "r = [] \<or> Q b (hd r)"
      by (simp_all add: adj_all_Cons)
    from s have "length r < length s" by simp
    from less.hyps[OF this qr] have ih: "adj_all ?Q (?R r)" .
    have "?R r = [] \<or> ?Q b (hd (?R r))"
    proof (cases "r = []")
      case True
      then show ?thesis by (simp add: ReplaceAll_Nil)
    next
      case False
      with qb have "Q b (hd r)" by simp
      moreover have "Q b b" using b by (rule nw)
      ultimately show ?thesis using ReplaceAll_hd[OF False, of "CHR 0x20" b b] b by auto
    qed
    with ih show ?thesis unfolding s ReplaceAll_match adj_all_Cons by blast
  next
    case False
    show ?thesis
    proof (cases s)
      case Nil
      then show ?thesis by (simp add: ReplaceAll_Nil)
    next
      case (Cons c cs)
      from less.prems Cons have qr: "adj_all Q cs" and qc: "cs = [] \<or> Q c (hd cs)"
        by (simp_all add: adj_all_Cons)
      from Cons have "length cs < length s" by simp
      from less.hyps[OF this qr] have ih: "adj_all ?Q (?R cs)" .
      from False Cons have np: "\<not> (c = CHR 0x20 \<and> (\<exists>r. cs = b # r))" by simp
      have "?R cs = [] \<or> ?Q c (hd (?R cs))"
      proof (cases "cs = []")
        case True
        then show ?thesis by (simp add: ReplaceAll_Nil)
      next
        case ne: False
        with qc have q: "Q c (hd cs)" by simp
        show ?thesis
        proof (cases "\<exists>r. cs = CHR 0x20 # b # r")
          case True
          then have "hd cs = CHR 0x20" by auto
          with q nd have "c \<noteq> CHR 0x20" by (auto simp: no_double_space_def)
          with nw[OF this] True ReplaceAll_hd[OF ne, of "CHR 0x20" b b] show ?thesis by simp
        next
          case f: False
          from np ne have "\<not> (c = CHR 0x20 \<and> hd cs = b)"
            by (cases cs) auto
          with q f ReplaceAll_hd[OF ne, of "CHR 0x20" b b] show ?thesis by simp
        qed
      qed
      with ih show ?thesis
        unfolding Cons ReplaceAll_skip[OF np] adj_all_Cons by blast
    qed
  qed
qed

text \<open>Deleting the space after \<open>a\<close>.\<close>

lemma ReplaceAll_after:
  assumes a: "a \<noteq> CHR 0x20"
    and nd: "\<And>x y. Q x y \<Longrightarrow> no_double_space x y"
    and nw: "\<And>y. y \<noteq> CHR 0x20 \<Longrightarrow> Q a y"
  shows "adj_all Q s \<Longrightarrow>
         adj_all (\<lambda>x y. Q x y \<and> \<not> (x = a \<and> y = CHR 0x20)) (ReplaceAll s [a, CHR 0x20] [a])"
proof (induction "length s" arbitrary: s rule: less_induct)
  case less
  let ?Q = "\<lambda>x y. Q x y \<and> \<not> (x = a \<and> y = CHR 0x20)"
  let ?R = "\<lambda>s. ReplaceAll s [a, CHR 0x20] [a]"
  have hd_same: "hd (?R r) = hd r" if "r \<noteq> []" for r
    using ReplaceAll_hd[OF that, of a "CHR 0x20" a] by auto
  show ?case
  proof (cases "\<exists>r. s = a # CHR 0x20 # r")
    case True
    then obtain r where s: "s = a # CHR 0x20 # r" by blast
    from less.prems s have qr: "adj_all Q r" and qb: "r = [] \<or> Q (CHR 0x20) (hd r)"
      by (simp_all add: adj_all_Cons)
    from s have "length r < length s" by simp
    from less.hyps[OF this qr] have ih: "adj_all ?Q (?R r)" .
    have "?R r = [] \<or> ?Q a (hd (?R r))"
    proof (cases "r = []")
      case True
      then show ?thesis by (simp add: ReplaceAll_Nil)
    next
      case False
      with qb nd have "hd r \<noteq> CHR 0x20" by (auto simp: no_double_space_def)
      with nw[OF this] hd_same[OF False] show ?thesis by simp
    qed
    with ih show ?thesis unfolding s ReplaceAll_match adj_all_Cons by blast
  next
    case False
    show ?thesis
    proof (cases s)
      case Nil
      then show ?thesis by (simp add: ReplaceAll_Nil)
    next
      case (Cons c cs)
      from less.prems Cons have qr: "adj_all Q cs" and qc: "cs = [] \<or> Q c (hd cs)"
        by (simp_all add: adj_all_Cons)
      from Cons have "length cs < length s" by simp
      from less.hyps[OF this qr] have ih: "adj_all ?Q (?R cs)" .
      from False Cons have np: "\<not> (c = a \<and> (\<exists>r. cs = CHR 0x20 # r))" by simp
      have "?R cs = [] \<or> ?Q c (hd (?R cs))"
      proof (cases "cs = []")
        case True
        then show ?thesis by (simp add: ReplaceAll_Nil)
      next
        case ne: False
        with qc have q: "Q c (hd cs)" by simp
        from np ne have "\<not> (c = a \<and> hd cs = CHR 0x20)"
          by (cases cs) auto
        with q hd_same[OF ne] show ?thesis by simp
      qed
      with ih show ?thesis
        unfolding Cons ReplaceAll_skip[OF np] adj_all_Cons by blast
    qed
  qed
qed

subsection \<open>TrimSpace returns a slice of its argument and is idempotent\<close>

lemma TrimLeftSpace_drop: "\<exists>n. TrimLeftSpace s = drop n s"
proof (induction s rule: TrimLeftSpace.induct)
  case (1 s)
  show ?case
  proof (cases "space_len s = 0")
    case True
    then have "TrimLeftSpace s = drop 0 s" by (subst TrimLeftSpace.simps) simp
    then show ?thesis by blast
  next
    case False
    with 1 obtain n where "TrimLeftSpace (drop (space_len s) s) = drop n (drop (space_len s) s)"
      by blast
    with False have "TrimLeftSpace s = drop (space_len s + n) s"
      by (subst TrimLeftSpace.simps) (simp add: add.commute)
    then show ?thesis by blast
  qed
qed

lemma trim_rev_drop: "\<exists>n. trim_rev r = drop n r"
proof (induction r rule: trim_rev.induct)
  case (1 r)
  show ?case
  proof (cases "space_len_rev r = 0")
    case True
    then have "trim_rev r = drop 0 r" by (subst trim_rev.simps) simp
    then show ?thesis by blast
  next
    case False
    with 1 obtain n where "trim_rev (drop (space_len_rev r) r) = drop n (drop (space_len_rev r) r)"
      by blast
    with False have "trim_rev r = drop (space_len_rev r + n) r"
      by (subst trim_rev.simps) (simp add: add.commute)
    then show ?thesis by blast
  qed
qed

lemma TrimRightSpace_take: "\<exists>k. TrimRightSpace v = take k v"
proof -
  obtain m where "trim_rev (rev v) = drop m (rev v)" using trim_rev_drop by blast
  then have "TrimRightSpace v = take (length v - m) v"
    by (simp add: TrimRightSpace_def rev_drop)
  then show ?thesis by blast
qed

lemma TrimSpace_slice: "\<exists>n k. TrimSpace u = take k (drop n u)"
proof -
  obtain n where n: "TrimLeftSpace u = drop n u" using TrimLeftSpace_drop by blast
  obtain k where "TrimRightSpace (drop n u) = take k (drop n u)"
    using TrimRightSpace_take by blast
  with n show ?thesis unfolding TrimSpace_def by auto
qed

lemma TrimLeftSpace_space_len: "space_len (TrimLeftSpace s) = 0"
proof (induction s rule: TrimLeftSpace.induct)
  case (1 s)
  show ?case
  proof (cases "space_len s = 0")
    case True
    then show ?thesis by (subst TrimLeftSpace.simps) simp
  next
    case False
    with 1 show ?thesis by (subst TrimLeftSpace.simps) simp
  qed
qed

lemma trim_rev_space_len: "space_len_rev (trim_rev r) = 0"
proof (induction r rule: trim_rev.induct)
  case (1 r)
  show ?case
  proof (cases "space_len_rev r = 0")
    case True
    then show ?thesis by (subst trim_rev.simps) simp
  next
    case False
    with 1 show ?thesis by (subst trim_rev.simps) simp
  qed
qed

lemma space_len_append: "0 < space_len w \<Longrightarrow> space_len (w @ x) = space_len w"
proof (cases w)
  case Nil
  assume "0 < space_len w"
  with Nil show ?thesis by simp
next
  case (Cons c cs)
  assume p: "0 < space_len w"
  show ?thesis
  proof (cases cs)
    case Nil
    with Cons p show ?thesis by (auto split: if_splits)
  next
    case c2: (Cons d ds)
    show ?thesis
    proof (cases ds)
      case Nil
      with Cons c2 p show ?thesis by (auto split: if_splits)
    next
      case c3: (Cons e es)
      with Cons c2 show ?thesis by simp
    qed
  qed
qed

lemma TrimSpace_idem: "TrimSpace (TrimSpace u) = TrimSpace u"
proof -
  let ?v = "TrimLeftSpace u"
  let ?w = "TrimRightSpace ?v"
  obtain k where k: "?w = take k ?v" using TrimRightSpace_take by blast
  have "space_len ?w = 0"
  proof (rule ccontr)
    assume "space_len ?w \<noteq> 0"
    then have "0 < space_len ?w" by simp
    from space_len_append[OF this, of "drop k ?v"] this k
    have "0 < space_len ?v" by simp
    with TrimLeftSpace_space_len[of u] show False by simp
  qed
  then have l: "TrimLeftSpace ?w = ?w" by (subst TrimLeftSpace.simps) simp
  have "space_len_rev (rev ?w) = 0"
    by (simp add: TrimRightSpace_def trim_rev_space_len)
  then have "trim_rev (rev ?w) = rev ?w" by (subst trim_rev.simps) simp
  then have "TrimRightSpace ?w = ?w" by (simp add: TrimRightSpace_def)
  with l show ?thesis by (simp add: TrimSpace_def)
qed

subsection \<open>The neighbours in a normal form\<close>

lemma normalizeForCompare_stages:
  "normalizeForCompare s = TrimSpace (replacements (collapse_space (stripComments s)))"
  by (simp add: normalizeForCompare_def replacements_def Let_def)

lemma replacements_adj:
  assumes "adj_all no_double_space s"
  shows "adj_all norm_adj (replacements s)"
proof -
  let ?Q1 = "\<lambda>x y. no_double_space x y \<and> \<not> (x = CHR ''('' \<and> y = CHR 0x20)"
  let ?Q2 = "\<lambda>x y. ?Q1 x y \<and> \<not> (x = CHR 0x20 \<and> y = CHR '')'')"
  let ?Q3 = "\<lambda>x y. ?Q2 x y \<and> \<not> (x = CHR 0x20 \<and> y = CHR '','')"
  let ?Q4 = "\<lambda>x y. ?Q3 x y \<and> \<not> (x = CHR 0x20 \<and> y = CHR '';'')"
  let ?s1 = "ReplaceAll s ''( '' ''(''"
  let ?s2 = "ReplaceAll ?s1 '' )'' '')''"
  let ?s3 = "ReplaceAll ?s2 '' ,'' '',''"
  let ?s4 = "ReplaceAll ?s3 '' ;'' '';''"
  have 1: "adj_all ?Q1 ?s1"
  proof (rule ReplaceAll_after[of "CHR ''(''" no_double_space s])
    show "adj_all no_double_space s" by (rule assms)
  qed (simp_all add: no_double_space_def)
  have 2: "adj_all ?Q2 ?s2"
  proof (rule ReplaceAll_before[of "CHR '')''" ?Q1 ?s1])
    show "adj_all ?Q1 ?s1" by (rule 1)
  qed (simp_all add: no_double_space_def)
  have 3: "adj_all ?Q3 ?s3"
  proof (rule ReplaceAll_before[of "CHR '',''" ?Q2 ?s2])
    show "adj_all ?Q2 ?s2" by (rule 2)
  qed (simp_all add: no_double_space_def)
  have 4: "adj_all ?Q4 ?s4"
  proof (rule ReplaceAll_before[of "CHR '';''" ?Q3 ?s3])
    show "adj_all ?Q3 ?s3" by (rule 3)
  qed (simp_all add: no_double_space_def)
  show ?thesis
    unfolding replacements_def
    by (rule adj_all_mono[OF _ 4]) (simp add: norm_adj_def)
qed

lemma replacements_only_plain:
  assumes "only_plain_space s"
  shows "only_plain_space (replacements s)"
proof -
  have step: "only_plain_space (ReplaceAll t [a, b] [x])"
    if "only_plain_space t" and "\<not> is_rx_space x" for t a b x
    using that ReplaceAll_set[of t a b x] by (auto simp: only_plain_space_def)
  show ?thesis
    unfolding replacements_def
    by (intro step assms) (simp_all add: is_rx_space_def)
qed

lemma replacements_id:
  assumes "adj_all norm_adj t"
  shows "replacements t = t"
proof -
  have 1: "ReplaceAll t ''( '' ''('' = t"
    by (rule ReplaceAll_id, rule adj_all_mono[OF _ assms]) (simp add: norm_adj_def)
  have 2: "ReplaceAll t '' )'' '')'' = t"
    by (rule ReplaceAll_id, rule adj_all_mono[OF _ assms]) (simp add: norm_adj_def)
  have 3: "ReplaceAll t '' ,'' '','' = t"
    by (rule ReplaceAll_id, rule adj_all_mono[OF _ assms]) (simp add: norm_adj_def)
  have 4: "ReplaceAll t '' ;'' '';'' = t"
    by (rule ReplaceAll_id, rule adj_all_mono[OF _ assms]) (simp add: norm_adj_def)
  show ?thesis unfolding replacements_def by (simp only: 1 2 3 4)
qed

lemma normal_form_shape:
  "only_plain_space (normalizeForCompare s) \<and> adj_all norm_adj (normalizeForCompare s)"
proof -
  let ?u = "replacements (collapse_space (stripComments s))"
  obtain n k where t: "normalizeForCompare s = take k (drop n ?u)"
    using TrimSpace_slice[of ?u] unfolding normalizeForCompare_stages by blast
  have p: "only_plain_space ?u"
    by (rule replacements_only_plain, rule collapse_space_only_plain)
  have a: "adj_all norm_adj ?u"
    by (rule replacements_adj, rule collapse_space_adj)
  from p have "only_plain_space (take k (drop n ?u))"
    unfolding only_plain_space_def by (meson in_set_dropD in_set_takeD)
  moreover from a have "adj_all norm_adj (take k (drop n ?u))"
    by (intro adj_all_take adj_all_drop)
  ultimately show ?thesis unfolding t by blast
qed

lemma normal_form_fixed:
  assumes "\<not> Contains (normalizeForCompare s) ''/*''"
    and "\<not> Contains (normalizeForCompare s) ''--''"
  shows "normalizeForCompare (normalizeForCompare s) = normalizeForCompare s"
proof -
  let ?t = "normalizeForCompare s"
  from normal_form_shape[of s] have p: "only_plain_space ?t" and a: "adj_all norm_adj ?t"
    by blast+
  have 1: "stripComments ?t = ?t" using assms by (rule stripComments_id)
  have "adj_all no_double_space ?t"
    by (rule adj_all_mono[OF _ a]) (simp add: norm_adj_def)
  with p have 2: "collapse_space ?t = ?t" by (rule collapse_space_id)
  have 3: "replacements ?t = ?t" using a by (rule replacements_id)
  have 4: "TrimSpace ?t = ?t"
    unfolding normalizeForCompare_stages by (rule TrimSpace_idem)
  show ?thesis
    by (subst normalizeForCompare_stages) (simp only: 1 2 3 4)
qed

subsection \<open>No stage lengthens the text, and a comment opener shortens it\<close>

lemma Contains_Nil: "p \<noteq> [] \<Longrightarrow> \<not> Contains [] p"
  by (simp add: Contains_def)

lemma Contains_step:
  "s \<noteq> [] \<Longrightarrow> \<not> prefix p s \<Longrightarrow> Contains s p \<longleftrightarrow> Contains (tl s) p"
  by (cases s) (auto simp: Contains_def)

lemma stripComments_length:
  "length (stripComments s) \<le> length s
   \<and> (Contains s ''/*'' \<or> Contains s ''--'' \<longrightarrow> length (stripComments s) < length s)"
proof (induction s rule: stripComments.induct)
  case (1 s)
  show ?case
  proof (cases "s = []")
    case True
    then show ?thesis by (subst (1 2) stripComments.simps) (simp add: Contains_Nil)
  next
    case ne: False
    then have pos: "0 < length s" by simp
    show ?thesis
    proof (cases "prefix ''/*'' s")
      case True
      show ?thesis
      proof (cases "Index (drop 2 s) ''*/''")
        case None
        with ne True have "stripComments s = []" by (subst stripComments.simps) simp
        with pos show ?thesis by simp
      next
        case (Some j)
        with ne True have e: "stripComments s = stripComments (drop (2 + j + 2) s)"
          by (subst stripComments.simps) simp
        from "1.IH"(1)[OF ne True Some]
        have "length (stripComments (drop (2 + j + 2) s)) \<le> length (drop (2 + j + 2) s)"
          by blast
        moreover from pos have "length (drop (2 + j + 2) s) < length s" by simp
        ultimately have "length (stripComments s) < length s" unfolding e by (rule le_less_trans)
        then show ?thesis by simp
      qed
    next
      case n1: False
      show ?thesis
      proof (cases "prefix ''--'' s")
        case True
        show ?thesis
        proof (cases "Index s [CHR 0x0A]")
          case None
          with ne n1 True have "stripComments s = []" by (subst stripComments.simps) simp
          with pos show ?thesis by simp
        next
          case (Some j)
          with ne n1 True have e: "stripComments s = stripComments (drop (j + 1) s)"
            by (subst stripComments.simps) simp
          from "1.IH"(2)[OF ne n1 True Some]
          have "length (stripComments (drop (j + 1) s)) \<le> length (drop (j + 1) s)"
            by blast
          moreover from pos have "length (drop (j + 1) s) < length s" by simp
          ultimately have "length (stripComments s) < length s"
            unfolding e by (rule le_less_trans)
          then show ?thesis by simp
        qed
      next
        case n2: False
        from ne n1 n2 have e: "stripComments s = hd s # stripComments (tl s)"
          by (subst stripComments.simps) simp
        from "1.IH"(3)[OF ne n1 n2] Contains_step[OF ne n1] Contains_step[OF ne n2]
        have le: "length (stripComments (tl s)) \<le> length (tl s)"
          and lt: "Contains s ''/*'' \<or> Contains s ''--''
               \<longrightarrow> length (stripComments (tl s)) < length (tl s)"
          by blast+
        from ne have l: "length s = Suc (length (tl s))" by (cases s) simp_all
        have "length (stripComments s) = Suc (length (stripComments (tl s)))"
          by (subst e) simp
        with le lt l show ?thesis by linarith
      qed
    qed
  qed
qed

lemma collapse_space_length: "length (collapse_space s) \<le> length s"
proof (induction s rule: collapse_space.induct)
  case (1 s)
  show ?case
  proof (cases s)
    case Nil
    then show ?thesis by (simp add: collapse_space_Nil)
  next
    case (Cons c cs)
    show ?thesis
    proof (cases "is_rx_space c")
      case True
      with Cons "1.IH"(1)
      have "length (collapse_space (dropWhile is_rx_space s)) \<le> length (dropWhile is_rx_space s)"
        by simp
      moreover from Cons True have "length (dropWhile is_rx_space s) \<le> length cs"
        by (simp add: length_dropWhile_le)
      moreover from Cons True
      have "collapse_space s = CHR 0x20 # collapse_space (dropWhile is_rx_space s)"
        by (subst collapse_space.simps) simp
      ultimately show ?thesis using Cons by simp
    next
      case False
      with Cons "1.IH"(2) have "length (collapse_space (tl s)) \<le> length (tl s)" by simp
      moreover from Cons False have "collapse_space s = c # collapse_space (tl s)"
        by (subst collapse_space.simps) simp
      ultimately show ?thesis using Cons by simp
    qed
  qed
qed

lemma ReplaceAll_length: "length (ReplaceAll s [a, b] [x]) \<le> length s"
proof (induction "length s" arbitrary: s rule: less_induct)
  case less
  show ?case
  proof (cases "\<exists>r. s = a # b # r")
    case True
    then obtain r where s: "s = a # b # r" by blast
    then have "length r < length s" by simp
    from less[OF this] s show ?thesis by (simp add: ReplaceAll_match)
  next
    case False
    show ?thesis
    proof (cases s)
      case Nil
      then show ?thesis by (simp add: ReplaceAll_Nil)
    next
      case (Cons c cs)
      then have l: "length cs < length s" by simp
      from False Cons have "\<not> (c = a \<and> (\<exists>r. cs = b # r))" by simp
      from ReplaceAll_skip[OF this, of x] less[OF l] Cons show ?thesis by simp
    qed
  qed
qed

lemma replacements_length: "length (replacements s) \<le> length s"
proof -
  have step: "length (ReplaceAll t [a, b] [x]) \<le> length s" if "length t \<le> length s"
    for t a b x
    using that ReplaceAll_length[of t a b x] by simp
  show ?thesis unfolding replacements_def by (intro step) simp
qed

lemma TrimSpace_length: "length (TrimSpace u) \<le> length u"
proof -
  obtain n k where "TrimSpace u = take k (drop n u)" using TrimSpace_slice by blast
  then show ?thesis by simp
qed

lemma normalizeForCompare_shortens:
  assumes "Contains t ''/*'' \<or> Contains t ''--''"
  shows "length (normalizeForCompare t) < length t"
proof -
  let ?a = "stripComments t"
  let ?b = "collapse_space ?a"
  let ?c = "replacements ?b"
  have "length (TrimSpace ?c) \<le> length ?c" by (rule TrimSpace_length)
  also have "\<dots> \<le> length ?b" by (rule replacements_length)
  also have "\<dots> \<le> length ?a" by (rule collapse_space_length)
  also have "\<dots> < length t" using stripComments_length[of t] assms by blast
  finally show ?thesis unfolding normalizeForCompare_stages .
qed

text \<open>Claim C8.  The normal form of \<^verbatim>\<open>-/**/-\<close> is \<^verbatim>\<open>--\<close>, a line comment, and the normal
  form of that is the empty text: removing a comment can bring two characters together
  that open a comment, so normalising twice is not normalising once.\<close>

theorem normalize_idempotent_counterexample:
  "normalizeForCompare ''-/**/-'' = ''--''
   \<and> normalizeForCompare (normalizeForCompare ''-/**/-'') = []
   \<and> normalizeForCompare (normalizeForCompare ''-/**/-'') \<noteq> normalizeForCompare ''-/**/-''"
proof -
  have 1: "normalizeForCompare ''-/**/-'' = ''--''" by code_simp
  have 2: "normalizeForCompare ''--'' = []" by code_simp
  show ?thesis by (simp only: 1 2) simp
qed

text \<open>Claim C8, as the code has it.  Normalising a second time changes nothing exactly
  when the normal form contains neither \<^verbatim>\<open>/*\<close> nor \<^verbatim>\<open>--\<close>: without a comment opener
  every stage of \<^verbatim>\<open>normalizeForCompare\<close> is the identity on a normal form, and with one
  the second pass is strictly shorter.\<close>

theorem normalize_idempotent:
  "normalizeForCompare (normalizeForCompare s) = normalizeForCompare s
   \<longleftrightarrow> \<not> Contains (normalizeForCompare s) ''/*'' \<and> \<not> Contains (normalizeForCompare s) ''--''"
proof
  assume e: "normalizeForCompare (normalizeForCompare s) = normalizeForCompare s"
  show "\<not> Contains (normalizeForCompare s) ''/*'' \<and> \<not> Contains (normalizeForCompare s) ''--''"
  proof (rule ccontr)
    assume "\<not> ?thesis"
    then have "Contains (normalizeForCompare s) ''/*'' \<or> Contains (normalizeForCompare s) ''--''"
      by blast
    from normalizeForCompare_shortens[OF this] e show False by simp
  qed
next
  assume "\<not> Contains (normalizeForCompare s) ''/*'' \<and> \<not> Contains (normalizeForCompare s) ''--''"
  then show "normalizeForCompare (normalizeForCompare s) = normalizeForCompare s"
    using normal_form_fixed by blast
qed

theorem normalize_idempotent_witness:
  "normalizeForCompare ''SELECT  *  FROM t /* c */ WHERE ( a , b ) ; -- x''
     = ''SELECT * FROM t WHERE (a, b);''
   \<and> \<not> Contains ''SELECT * FROM t WHERE (a, b);'' ''/*''
   \<and> \<not> Contains ''SELECT * FROM t WHERE (a, b);'' ''--''
   \<and> normalizeForCompare ''SELECT * FROM t WHERE (a, b);'' = ''SELECT * FROM t WHERE (a, b);''"
proof -
  let ?s = "''SELECT  *  FROM t /* c */ WHERE ( a , b ) ; -- x''"
  let ?t = "''SELECT * FROM t WHERE (a, b);''"
  have 1: "normalizeForCompare ?s = ?t" by code_simp
  have 2: "\<not> Contains ?t ''/*''" by code_simp
  have 3: "\<not> Contains ?t ''--''" by code_simp
  have "normalizeForCompare ?t = ?t"
    using normalize_idempotent[of ?s] 2 3 unfolding 1 by blast
  with 1 2 3 show ?thesis by (simp only:) simp
qed

end
